theory Spec2Isabelle
  imports Complex_Main
begin

section \<open>Snake Evolution: the simulation core of \<open>snake_evolution.py\<close>\<close>

text \<open>
  The theory embeds the classes \<open>Snake\<close> and \<open>Game\<close> of \<open>src/snake_evolution.py\<close>:
  the movement and direction rules of the snake, the three spawners, the tick routine
  \<open>Game.update\<close>, \<open>Game.game_over\<close> and the key handling of \<open>Game.handle_events\<close>.
  Drawing is left out; it reads the state and never writes it.
\<close>

subsection \<open>Constants (lines 13 to 17)\<close>

definition WIDTH :: int where "WIDTH = 800"
definition HEIGHT :: int where "HEIGHT = 600"
definition GRID_SIZE :: int where "GRID_SIZE = 20"
definition GRID_WIDTH :: int where "GRID_WIDTH = WIDTH div GRID_SIZE"
definition GRID_HEIGHT :: int where "GRID_HEIGHT = HEIGHT div GRID_SIZE"
definition FPS :: int where "FPS = 60"

subsection \<open>Entities\<close>

type_synonym cell = "int \<times> int"

datatype Direction = UP | DOWN | LEFT | RIGHT

text \<open>\<open>Direction.value\<close>: the unit delta of each member of the enum.\<close>

fun Direction_value :: "Direction \<Rightarrow> int \<times> int" where
  "Direction_value UP = (0, -1)"
| "Direction_value DOWN = (0, 1)"
| "Direction_value LEFT = (-1, 0)"
| "Direction_value RIGHT = (1, 0)"

datatype PowerUpType = SPEED_BOOST | SHIELD | MULTIPLIER | GHOST

text \<open>
  The dataclass \<open>PowerUp\<close>. Its colour is a function of its type and is only drawn, so the
  record leaves it out.
\<close>

record PowerUp =
  ptype :: PowerUpType
  pos :: cell
  duration :: int

text \<open>What the source raises becomes a value.\<close>

datatype error = IndexError | ZeroDivisionError | AttributeError

text \<open>
  The class \<open>Snake\<close>. \<open>active_powerups\<close> is a dict from power-up type to remaining frames.
\<close>

record snake =
  body :: "cell list"
  direction :: Direction
  grow_pending :: int
  active_powerups :: "PowerUpType \<rightharpoonup> int"

text \<open>\<open>Snake.reset\<close> (lines 91 to 97).\<close>

definition reset :: snake where
  "reset =
     (let start_x = GRID_WIDTH div 2; start_y = GRID_HEIGHT div 2
      in \<lparr>body = [(start_x, start_y), (start_x - 1, start_y), (start_x - 2, start_y)],
          direction = RIGHT, grow_pending = 0, active_powerups = Map.empty\<rparr>)"

text \<open>\<open>Snake.get_head\<close>: \<open>self.body[0]\<close> raises IndexError on an empty list.\<close>

definition get_head :: "snake \<Rightarrow> error + cell" where
  "get_head s = (case body s of [] \<Rightarrow> Inl IndexError | h # _ \<Rightarrow> Inr h)"

text \<open>
  \<open>Snake.move\<close> (lines 102 to 127). The result pairs the returned boolean with the snake
  after the call. \<open>body[1:]\<close> is \<open>tl\<close> of the body, which is not empty once \<open>get_head\<close> has
  returned; Python's \<open>%\<close> with a positive modulus is \<open>mod\<close> on \<open>int\<close>.
\<close>

definition move :: "bool \<Rightarrow> snake \<Rightarrow> error + bool \<times> snake" where
  "move has_ghost s =
     (case get_head s of
        Inl e \<Rightarrow> Inl e
      | Inr (head_x, head_y) \<Rightarrow>
          (case Direction_value (direction s) of
             (dx, dy) \<Rightarrow>
               let new_head = (head_x + dx, head_y + dy) in
               if \<not> has_ghost \<and>
                  (fst new_head < 0 \<or> fst new_head \<ge> GRID_WIDTH \<or>
                   snd new_head < 0 \<or> snd new_head \<ge> GRID_HEIGHT)
               then Inr (False, s)
               else
                 let new_head =
                       (if has_ghost
                        then (fst new_head mod GRID_WIDTH, snd new_head mod GRID_HEIGHT)
                        else new_head) in
                 if new_head \<in> set (tl (body s)) then Inr (False, s)
                 else
                   let s1 = s\<lparr>body := new_head # body s\<rparr> in
                   if grow_pending s1 > 0
                   then Inr (True, s1\<lparr>grow_pending := grow_pending s1 - 1\<rparr>)
                   else Inr (True, s1\<lparr>body := butlast (body s1)\<rparr>)))"

text \<open>\<open>Snake.grow\<close> (lines 129 to 130).\<close>

definition grow :: "int \<Rightarrow> snake \<Rightarrow> snake" where
  "grow amount s = s\<lparr>grow_pending := grow_pending s + amount\<rparr>"

text \<open>
  \<open>Snake.set_direction\<close> (lines 132 to 141). The head is read before the length test, so an
  empty body raises.
\<close>

definition set_direction :: "Direction \<Rightarrow> snake \<Rightarrow> error + snake" where
  "set_direction d s =
     (case Direction_value d of
        (dx, dy) \<Rightarrow>
          (case get_head s of
             Inl e \<Rightarrow> Inl e
           | Inr (head_x, head_y) \<Rightarrow>
               if length (body s) > 1
               then (case body s ! 1 of
                       (neck_x, neck_y) \<Rightarrow>
                         if (head_x + dx, head_y + dy) \<noteq> (neck_x, neck_y)
                         then Inr (s\<lparr>direction := d\<rparr>)
                         else Inr s)
               else Inr (s\<lparr>direction := d\<rparr>)))"

subsection \<open>The session\<close>

text \<open>
  The class \<open>Game\<close>, without the screen, the fonts, the clock and the particles (visual
  only). \<open>mode\<close> is the string the source stores; \<open>last_mode\<close> is unset until \<open>game_over\<close>
  assigns it. The obstacle objects carry a position and nothing else, so \<open>obstacles\<close> is the
  list of their positions. The two speed fields are Python floats; the model computes with
  exact rationals.

  Two fields stand for the world outside the object. \<open>saved\<close> lists the tables handed to
  \<open>json.dump\<close> by \<open>save_high_scores\<close>, the latest first (a failing write is swallowed by
  the source, so the call is what the session decides). \<open>rand\<close> is the sequence of raw draws
  behind the integer draws of the spawners, and \<open>rand_pos\<close> counts the draws made so far.
\<close>

record game =
  mode :: string
  last_mode :: "string option"
  snake :: snake
  score :: int
  move_counter :: int
  base_speed :: int
  speed_multiplier :: rat
  powerups :: "PowerUp list"
  obstacles :: "cell list"
  time_remaining :: int
  powerup_spawn_counter :: int
  food_pos :: cell
  high_scores :: "string \<rightharpoonup> int"
  saved :: "(string \<rightharpoonup> int) list"
  rand :: "nat \<Rightarrow> nat"
  rand_pos :: nat

text \<open>
  \<open>random.randint(a, b)\<close> returns some integer between \<open>a\<close> and \<open>b\<close>, both included;
  \<open>random.choice(xs)\<close> returns some element of \<open>xs\<close>. Every such result is the image of a
  raw draw under the reductions below, so quantifying over \<open>rand\<close> covers every run.
\<close>

definition randint :: "int \<Rightarrow> int \<Rightarrow> game \<Rightarrow> int \<times> game" where
  "randint a b g =
     (a + int (rand g (rand_pos g)) mod (b - a + 1), g\<lparr>rand_pos := rand_pos g + 1\<rparr>)"

definition choice :: "'a list \<Rightarrow> game \<Rightarrow> 'a \<times> game" where
  "choice xs g = (xs ! (rand g (rand_pos g) mod length xs), g\<lparr>rand_pos := rand_pos g + 1\<rparr>)"

text \<open>
  \<open>Game.spawn_food\<close> (lines 168 to 172): a loop with no bound on its attempts. A run that
  never finds a free cell is the value \<open>None\<close>.
\<close>

partial_function (option) spawn_food :: "game \<Rightarrow> (cell \<times> game) option" where
  "spawn_food g =
     (case randint 0 (GRID_WIDTH - 1) g of
        (x, g1) \<Rightarrow>
          (case randint 0 (GRID_HEIGHT - 1) g1 of
             (y, g2) \<Rightarrow>
               if (x, y) \<notin> set (body (snake g2)) \<and> (x, y) \<notin> set (obstacles g2)
               then Some ((x, y), g2)
               else spawn_food g2))"

text \<open>
  \<open>Game.spawn_powerup\<close> (lines 174 to 183): the capacity test, then the loop.
  \<open>list(PowerUpType)\<close> lists the members in the order of their definition, and a new
  power-up has the default duration of 300 frames.
\<close>

partial_function (option) spawn_powerup_loop :: "game \<Rightarrow> game option" where
  "spawn_powerup_loop g =
     (case randint 0 (GRID_WIDTH - 1) g of
        (x, g1) \<Rightarrow>
          (case randint 0 (GRID_HEIGHT - 1) g1 of
             (y, g2) \<Rightarrow>
               if (x, y) \<notin> set (body (snake g2)) \<and> (x, y) \<noteq> food_pos g2 \<and>
                  (x, y) \<notin> set (map pos (powerups g2)) \<and> (x, y) \<notin> set (obstacles g2)
               then (case choice [SPEED_BOOST, SHIELD, MULTIPLIER, GHOST] g2 of
                       (powerup_type, g3) \<Rightarrow>
                         Some (g3\<lparr>powerups := powerups g3 @
                                  [\<lparr>ptype = powerup_type, pos = (x, y), duration = 300\<rparr>]\<rparr>))
               else spawn_powerup_loop g2))"

definition spawn_powerup :: "game \<Rightarrow> game option" where
  "spawn_powerup g = (if length (powerups g) < 2 then spawn_powerup_loop g else Some g)"

text \<open>\<open>Game.spawn_obstacle\<close> (lines 185 to 192).\<close>

partial_function (option) spawn_obstacle :: "game \<Rightarrow> game option" where
  "spawn_obstacle g =
     (case randint 0 (GRID_WIDTH - 1) g of
        (x, g1) \<Rightarrow>
          (case randint 0 (GRID_HEIGHT - 1) g1 of
             (y, g2) \<Rightarrow>
               if (x, y) \<notin> set (body (snake g2)) \<and> (x, y) \<noteq> food_pos g2 \<and>
                  (x, y) \<notin> set (map pos (powerups g2)) \<and> (x, y) \<notin> set (obstacles g2)
               then Some (g2\<lparr>obstacles := obstacles g2 @ [(x, y)]\<rparr>)
               else spawn_obstacle g2))"

declare spawn_food.simps [code]
declare spawn_powerup_loop.simps [code]
declare spawn_obstacle.simps [code]

text \<open>
  \<open>Game.reset_game\<close> (lines 155 to 166). It keeps the mode, the high scores and what lies
  outside the object.
\<close>

definition reset_game :: "game \<Rightarrow> game option" where
  "reset_game g =
     (case spawn_food
             (g\<lparr>snake := reset, score := 0, move_counter := 0, base_speed := 8,
                speed_multiplier := 1, powerups := [], obstacles := [],
                time_remaining := 60 * FPS, powerup_spawn_counter := 0\<rparr>) of
        None \<Rightarrow> None
      | Some (p, g1) \<Rightarrow> Some (g1\<lparr>food_pos := p\<rparr>))"

subsection \<open>High scores\<close>

text \<open>\<open>str.lower\<close> on the mode names, which are ASCII.\<close>

definition lower_char :: "char \<Rightarrow> char" where
  "lower_char c =
     (let n = (of_char c :: nat) in if 65 \<le> n \<and> n \<le> 90 then char_of (n + 32) else c)"

definition lower :: "string \<Rightarrow> string" where
  "lower s = map lower_char s"

text \<open>
  \<open>Game.load_high_scores\<close> (lines 475 to 482); the argument is the table read from
  \<open>high_scores.json\<close>, or \<open>None\<close> when the file is missing or unreadable.
\<close>

definition load_high_scores :: "(string \<rightharpoonup> int) option \<Rightarrow> (string \<rightharpoonup> int)" where
  "load_high_scores file =
     (case file of
        Some table \<Rightarrow> table
      | None \<Rightarrow> [''classic'' \<mapsto> 0, ''time_attack'' \<mapsto> 0, ''survival'' \<mapsto> 0])"

text \<open>\<open>Game.save_high_scores\<close> (lines 484 to 489).\<close>

definition save_high_scores :: "game \<Rightarrow> game" where
  "save_high_scores g = g\<lparr>saved := high_scores g # saved g\<rparr>"

text \<open>\<open>Game.game_over\<close> (lines 330 to 338); \<open>dict.get(key, 0)\<close> is 0 on a missing key.\<close>

definition game_over :: "game \<Rightarrow> game" where
  "game_over g =
     (let ending = mode g;
          g = g\<lparr>last_mode := Some ending, mode := ''GAME_OVER''\<rparr>;
          mode_key = lower ending
      in if score g > (case high_scores g mode_key of None \<Rightarrow> 0 | Some best \<Rightarrow> best)
         then save_high_scores (g\<lparr>high_scores := (high_scores g)(mode_key \<mapsto> score g)\<rparr>)
         else g)"

subsection \<open>The tick: \<open>Game.update\<close> (lines 239 to 328)\<close>

text \<open>
  The routine is cut at its own comments. A part that can leave \<open>update\<close> through
  \<open>return\<close> yields a \<open>flow\<close>: \<open>Return\<close> with the state at the \<open>return\<close>, or \<open>Continue\<close>.
\<close>

datatype flow = Continue game | Return game

text \<open>
  Lines 248 to 258: every timer goes down by one, and an entry at 0 or below is deleted.
  The loop only rewrites values of existing keys, so the dict is the map below.
\<close>

definition update_timers :: "game \<Rightarrow> game" where
  "update_timers g =
     g\<lparr>snake := (snake g)\<lparr>active_powerups :=
         (\<lambda>powerup_type.
            case active_powerups (snake g) powerup_type of
              None \<Rightarrow> None
            | Some remaining \<Rightarrow>
                if remaining - 1 \<le> 0 then None else Some (remaining - 1))\<rparr>\<rparr>"

text \<open>Lines 260 to 267, with 1.5 as \<open>3/2\<close> and 0.05 as \<open>1/20\<close>.\<close>

definition current_speed :: "game \<Rightarrow> rat" where
  "current_speed g =
     (let speed = of_int (base_speed g) * speed_multiplier g;
          speed = (if SPEED_BOOST \<in> dom (active_powerups (snake g))
                   then speed * (3 / 2) else speed)
      in if mode g = ''CLASSIC''
         then speed + of_nat (length (body (snake g))) * (1 / 20)
         else speed)"

text \<open>Python's \<open>int()\<close> of a float drops the fraction: it rounds towards zero.\<close>

definition py_int :: "rat \<Rightarrow> int" where
  "py_int q = (if q \<ge> 0 then \<lfloor>q\<rfloor> else \<lceil>q\<rceil>)"

text \<open>Line 270; a division by zero raises.\<close>

definition frames_per_move :: "game \<Rightarrow> error + int" where
  "frames_per_move g =
     (if current_speed g = 0 then Inl ZeroDivisionError
      else Inr (max 1 (py_int (of_int FPS / current_speed g))))"

text \<open>
  Lines 278 to 285: the move and its resolution. \<open>get_head\<close> on line 282 only places the
  particles; the body is not empty there, since \<open>move\<close> has returned.
\<close>

definition resolve_move :: "bool \<Rightarrow> game \<Rightarrow> error + flow" where
  "resolve_move has_ghost g =
     (case move has_ghost (snake g) of
        Inl e \<Rightarrow> Inl e
      | Inr (ok, s) \<Rightarrow>
          let g = g\<lparr>snake := s\<rparr> in
          if \<not> ok
          then if SHIELD \<in> dom (active_powerups (snake g))
               then Inr (Continue (g\<lparr>snake := (snake g)\<lparr>active_powerups :=
                                        (active_powerups (snake g))(SHIELD := None)\<rparr>\<rparr>))
               else Inr (Return (game_over g))
          else Inr (Continue g))"

text \<open>Lines 288 to 296: the obstacle under the head, in Survival and without Ghost.\<close>

definition check_obstacle :: "bool \<Rightarrow> game \<Rightarrow> error + flow" where
  "check_obstacle has_ghost g =
     (if mode g = ''SURVIVAL'' \<and> \<not> has_ghost
      then (case get_head (snake g) of
              Inl e \<Rightarrow> Inl e
            | Inr h \<Rightarrow>
                if h \<in> set (obstacles g)
                then if SHIELD \<in> dom (active_powerups (snake g))
                     then Inr (Continue
                            (g\<lparr>snake := (snake g)\<lparr>active_powerups :=
                                   (active_powerups (snake g))(SHIELD := None)\<rparr>,
                               obstacles := filter (\<lambda>c. c \<noteq> h) (obstacles g)\<rparr>))
                     else Inr (Return (game_over g))
                else Inr (Continue g))
      else Inr (Continue g))"

text \<open>Lines 299 to 304: the food under the head.\<close>

definition check_food :: "game \<Rightarrow> (error + game) option" where
  "check_food g =
     (case get_head (snake g) of
        Inl e \<Rightarrow> Some (Inl e)
      | Inr h \<Rightarrow>
          if h = food_pos g
          then let g = g\<lparr>snake := grow 1 (snake g)\<rparr>;
                   multiplier =
                     (if MULTIPLIER \<in> dom (active_powerups (snake g)) then 2 else 1);
                   g = g\<lparr>score := score g + 10 * multiplier\<rparr>
               in (case spawn_food g of
                     None \<Rightarrow> None
                   | Some (p, g) \<Rightarrow> Some (Inr (g\<lparr>food_pos := p\<rparr>)))
          else Some (Inr g))"

text \<open>
  Lines 307 to 311: the loop runs over a copy of the list, and \<open>list.remove\<close> deletes the
  first element equal to its argument.
\<close>

fun check_powerups :: "PowerUp list \<Rightarrow> game \<Rightarrow> error + game" where
  "check_powerups [] g = Inr g"
| "check_powerups (powerup # rest) g =
     (case get_head (snake g) of
        Inl e \<Rightarrow> Inl e
      | Inr h \<Rightarrow>
          if h = pos powerup
          then check_powerups rest
                 (g\<lparr>snake := (snake g)\<lparr>active_powerups :=
                        (active_powerups (snake g))(ptype powerup \<mapsto> duration powerup)\<rparr>,
                    powerups := remove1 powerup (powerups g)\<rparr>)
          else check_powerups rest g)"

text \<open>Lines 287 to 311: the three checks at the head, in the order of the source.\<close>

definition after_move :: "bool \<Rightarrow> game \<Rightarrow> (error + flow) option" where
  "after_move has_ghost g =
     (case check_obstacle has_ghost g of
        Inl e \<Rightarrow> Some (Inl e)
      | Inr (Return g) \<Rightarrow> Some (Inr (Return g))
      | Inr (Continue g) \<Rightarrow>
          (case check_food g of
             None \<Rightarrow> None
           | Some (Inl e) \<Rightarrow> Some (Inl e)
           | Some (Inr g) \<Rightarrow>
               (case check_powerups (powerups g) g of
                  Inl e \<Rightarrow> Some (Inl e)
                | Inr g \<Rightarrow> Some (Inr (Continue g)))))"

text \<open>Lines 274 to 311: what happens on a tick that moves the snake.\<close>

definition move_tick :: "game \<Rightarrow> (error + flow) option" where
  "move_tick g =
     (let g = g\<lparr>move_counter := 0\<rparr>;
          has_ghost = GHOST \<in> dom (active_powerups (snake g))
      in case resolve_move has_ghost g of
           Inl e \<Rightarrow> Some (Inl e)
         | Inr (Return g) \<Rightarrow> Some (Inr (Return g))
         | Inr (Continue g) \<Rightarrow> after_move has_ghost g)"

text \<open>Lines 314 to 317: the periodic power-up spawn.\<close>

definition periodic_powerup :: "game \<Rightarrow> game option" where
  "periodic_powerup g =
     (let g = g\<lparr>powerup_spawn_counter := powerup_spawn_counter g + 1\<rparr>
      in if powerup_spawn_counter g \<ge> FPS * 10
         then spawn_powerup (g\<lparr>powerup_spawn_counter := 0\<rparr>)
         else Some g)"

text \<open>Lines 320 to 322: the obstacles of Survival.\<close>

definition survival_obstacles :: "game \<Rightarrow> game option" where
  "survival_obstacles g =
     (if mode g = ''SURVIVAL'' \<and> int (length (body (snake g))) mod 5 = 0 \<and>
         length (body (snake g)) > 3
      then if int (length (obstacles g)) < int (length (body (snake g))) div 5
           then spawn_obstacle g
           else Some g
      else Some g)"

text \<open>Lines 325 to 328: the countdown of Time Attack.\<close>

definition time_attack :: "game \<Rightarrow> game" where
  "time_attack g =
     (if mode g = ''TIME_ATTACK''
      then let g = g\<lparr>time_remaining := time_remaining g - 1\<rparr>
           in if time_remaining g \<le> 0 then game_over g else g
      else g)"

text \<open>Lines 313 to 328: the end of every tick.\<close>

definition end_of_tick :: "game \<Rightarrow> (error + game) option" where
  "end_of_tick g =
     (case periodic_powerup g of
        None \<Rightarrow> None
      | Some g \<Rightarrow>
          (case survival_obstacles g of
             None \<Rightarrow> None
           | Some g \<Rightarrow> Some (Inr (time_attack g))))"

definition update :: "game \<Rightarrow> (error + game) option" where
  "update g =
     (if mode g \<notin> set [''CLASSIC'', ''TIME_ATTACK'', ''SURVIVAL''] then Some (Inr g)
      else
        let g = update_timers g in
        case frames_per_move g of
          Inl e \<Rightarrow> Some (Inl e)
        | Inr fpm \<Rightarrow>
            let g = g\<lparr>move_counter := move_counter g + 1\<rparr> in
            if move_counter g \<ge> fpm
            then (case move_tick g of
                    None \<Rightarrow> None
                  | Some (Inl e) \<Rightarrow> Some (Inl e)
                  | Some (Inr (Return g)) \<Rightarrow> Some (Inr g)
                  | Some (Inr (Continue g)) \<Rightarrow> end_of_tick g)
            else end_of_tick g)"

subsection \<open>Keys: \<open>Game.handle_events\<close> (lines 199 to 237)\<close>

datatype key =
  K_1 | K_2 | K_3 | K_q | K_SPACE | K_r | K_ESCAPE
  | K_UP | K_w | K_DOWN | K_s | K_LEFT | K_a | K_RIGHT | K_d | K_other

datatype event = QUIT | KEYDOWN key | OTHER

definition new_game :: "string \<Rightarrow> game \<Rightarrow> (error + bool \<times> game) option" where
  "new_game m g =
     (case reset_game (g\<lparr>mode := m\<rparr>) of
        None \<Rightarrow> None
      | Some g \<Rightarrow> Some (Inr (True, g)))"

definition turn :: "Direction \<Rightarrow> game \<Rightarrow> (error + bool \<times> game) option" where
  "turn d g =
     (case set_direction d (snake g) of
        Inl e \<Rightarrow> Some (Inl e)
      | Inr s \<Rightarrow> Some (Inr (True, g\<lparr>snake := s\<rparr>)))"

text \<open>
  One KEYDOWN event (lines 204 to 235). The boolean is \<open>False\<close> where the source returns
  \<open>False\<close> from \<open>handle_events\<close>.
\<close>

definition keydown :: "key \<Rightarrow> game \<Rightarrow> (error + bool \<times> game) option" where
  "keydown k g =
     (if mode g = ''MENU''
      then (if k = K_1 then new_game ''CLASSIC'' g
            else if k = K_2 then new_game ''TIME_ATTACK'' g
            else if k = K_3 then new_game ''SURVIVAL'' g
            else if k = K_q then Some (Inr (False, g))
            else Some (Inr (True, g)))
      else if mode g = ''GAME_OVER''
      then (if k = K_SPACE then Some (Inr (True, g\<lparr>mode := ''MENU''\<rparr>))
            else if k = K_r
            then (case reset_game g of
                    None \<Rightarrow> None
                  | Some g \<Rightarrow>
                      (case last_mode g of
                         None \<Rightarrow> Some (Inl AttributeError)
                       | Some m \<Rightarrow> Some (Inr (True, g\<lparr>mode := m\<rparr>))))
            else Some (Inr (True, g)))
      else (if k = K_ESCAPE then Some (Inr (True, g\<lparr>mode := ''MENU''\<rparr>))
            else if k = K_UP \<or> k = K_w then turn UP g
            else if k = K_DOWN \<or> k = K_s then turn DOWN g
            else if k = K_LEFT \<or> k = K_a then turn LEFT g
            else if k = K_RIGHT \<or> k = K_d then turn RIGHT g
            else Some (Inr (True, g))))"

fun handle_events :: "event list \<Rightarrow> game \<Rightarrow> (error + bool \<times> game) option" where
  "handle_events [] g = Some (Inr (True, g))"
| "handle_events (QUIT # es) g = Some (Inr (False, g))"
| "handle_events (OTHER # es) g = handle_events es g"
| "handle_events (KEYDOWN k # es) g =
     (case keydown k g of
        None \<Rightarrow> None
      | Some (Inl e) \<Rightarrow> Some (Inl e)
      | Some (Inr (running, g)) \<Rightarrow>
          if running then handle_events es g else Some (Inr (False, g)))"

subsection \<open>Sessions\<close>

text \<open>
  \<open>Game.__init__\<close> (lines 144 to 153): the menu, a reset, then the table loaded from the
  file. The fields that \<open>reset_game\<close> or the load assign start at placeholders.
\<close>

definition Game_init :: "(nat \<Rightarrow> nat) \<Rightarrow> (string \<rightharpoonup> int) option \<Rightarrow> game option" where
  "Game_init draws file =
     (case reset_game
             \<lparr>mode = ''MENU'', last_mode = None, snake = reset, score = 0, move_counter = 0,
              base_speed = 8, speed_multiplier = 1, powerups = [], obstacles = [],
              time_remaining = 0, powerup_spawn_counter = 0, food_pos = (0, 0),
              high_scores = Map.empty, saved = [], rand = draws, rand_pos = 0\<rparr> of
        None \<Rightarrow> None
      | Some g \<Rightarrow> Some (g\<lparr>high_scores := load_high_scores file\<rparr>))"

text \<open>
  The states a session passes through: \<open>Game.run\<close> (lines 491 to 497) alternates
  \<open>handle_events\<close> and \<open>update\<close> on the state that \<open>__init__\<close> built.
\<close>

inductive reachable :: "game \<Rightarrow> bool" where
  start: "Game_init draws file = Some g \<Longrightarrow> reachable g"
| events: "reachable g \<Longrightarrow> handle_events es g = Some (Inr (running, g')) \<Longrightarrow> reachable g'"
| tick: "reachable g \<Longrightarrow> update g = Some (Inr g') \<Longrightarrow> reachable g'"

subsection \<open>Notions used in the statements\<close>

text \<open>
  The \<open>k\<close>-th cell that a spawner draws from the state \<open>g\<close> on: each attempt takes two
  draws, a column and a row.
\<close>

definition candidate :: "game \<Rightarrow> nat \<Rightarrow> cell" where
  "candidate g k =
     (int (rand g (rand_pos g + 2 * k)) mod GRID_WIDTH,
      int (rand g (rand_pos g + 2 * k + 1)) mod GRID_HEIGHT)"

text \<open>The test of lines 178 to 180 and 188 to 190, shared by power-ups and obstacles.\<close>

definition free_for_powerup :: "game \<Rightarrow> cell \<Rightarrow> bool" where
  "free_for_powerup g c \<longleftrightarrow>
     c \<notin> set (body (snake g)) \<and> c \<noteq> food_pos g \<and> c \<notin> set (map pos (powerups g)) \<and>
     c \<notin> set (obstacles g)"

text \<open>
  The state in which the move of a tick is decided: the timers have gone down and the frame
  counter has gone up (lines 248 to 271).
\<close>

definition tick_start :: "game \<Rightarrow> game" where
  "tick_start g = (update_timers g)\<lparr>move_counter := move_counter g + 1\<rparr>"

text \<open>The collision that lines 288 and 289 test: Survival, no Ghost, an obstacle under the head.\<close>

definition obstacle_hit :: "bool \<Rightarrow> game \<Rightarrow> bool" where
  "obstacle_hit has_ghost g \<longleftrightarrow>
     mode g = ''SURVIVAL'' \<and> \<not> has_ghost \<and>
     (case body (snake g) of [] \<Rightarrow> False | h # _ \<Rightarrow> h \<in> set (obstacles g))"

text \<open>
  What every state of a session satisfies: the snake has a head, at most two power-ups
  lie on the field, none of them on the snake or on an obstacle, and the speed fields
  hold the constants of \<open>reset_game\<close>.
\<close>

definition well_formed :: "game \<Rightarrow> bool" where
  "well_formed g \<longleftrightarrow>
     body (snake g) \<noteq> [] \<and> length (powerups g) \<le> 2 \<and>
     (\<forall>p \<in> set (powerups g). pos p \<notin> set (body (snake g)) \<and> pos p \<notin> set (obstacles g)) \<and>
     base_speed g = 8 \<and> speed_multiplier g = 1"

subsection \<open>Example states\<close>

text \<open>A snake whose head is in the last column and looks at the right wall.\<close>

definition snake_at_wall :: snake where
  "snake_at_wall = reset\<lparr>body := [(39, 15), (38, 15), (37, 15)]\<rparr>"

text \<open>A snake of five cells coiled so that the cell above its head is its own fourth cell.\<close>

definition snake_coiled :: snake where
  "snake_coiled =
     reset\<lparr>body := [(20, 15), (21, 15), (21, 14), (20, 14), (19, 14)], direction := UP\<rparr>"

text \<open>A session just reset, in mode \<open>m\<close>, with the food at \<open>(5, 5)\<close>.\<close>

definition session :: "string \<Rightarrow> (nat \<Rightarrow> nat) \<Rightarrow> game" where
  "session m draws =
     \<lparr>mode = m, last_mode = None, snake = reset, score = 0, move_counter = 0,
      base_speed = 8, speed_multiplier = 1, powerups = [], obstacles = [],
      time_remaining = 60 * FPS, powerup_spawn_counter = 0, food_pos = (5, 5),
      high_scores = load_high_scores None, saved = [], rand = draws, rand_pos = 0\<rparr>"

text \<open>Draws that first propose the cell of the head, then \<open>(7, 7)\<close> for ever.\<close>

definition draws_head_then_7 :: "nat \<Rightarrow> nat" where
  "draws_head_then_7 i = (if i = 0 then 20 else if i = 1 then 15 else 7)"

text \<open>Draws that always propose \<open>(7, 7)\<close>.\<close>

definition draws7 :: "nat \<Rightarrow> nat" where
  "draws7 i = 7"

text \<open>The last tick of a Time Attack round, with 50 points scored and no move due.\<close>

definition last_tick :: game where
  "last_tick =
     (session ''TIME_ATTACK'' draws7)\<lparr>time_remaining := 1, score := 50, move_counter := 3\<rparr>"

text \<open>A round in which the periodic power-up spawn is due on the next tick.\<close>

definition spawn_due :: game where
  "spawn_due = (session ''CLASSIC'' draws7)\<lparr>powerup_spawn_counter := 599\<rparr>"

text \<open>The same with two power-ups already on the field.\<close>

definition field_full :: game where
  "field_full =
     spawn_due\<lparr>powerups := [\<lparr>ptype = GHOST, pos = (7, 7), duration = 300\<rparr>,
                            \<lparr>ptype = SHIELD, pos = (9, 9), duration = 300\<rparr>]\<rparr>"

text \<open>A Classic round with a snake of twenty cells, one frame before its next move.\<close>

definition long_snake :: game where
  "long_snake =
     (session ''CLASSIC'' draws7)
       \<lparr>snake := reset\<lparr>body :=
           [(25, 15), (24, 15), (23, 15), (22, 15), (21, 15), (20, 15), (19, 15), (18, 15),
            (17, 15), (16, 15), (15, 15), (14, 15), (13, 15), (12, 15), (11, 15), (10, 15),
            (9, 15), (8, 15), (7, 15), (6, 15)]\<rparr>,
        move_counter := 5\<rparr>"

text \<open>
  The cadence as the specification words it: the frame rate over the speed, rounded to the
  nearest integer, and at least 1.
\<close>

definition spec_ticks_per_move :: "game \<Rightarrow> int" where
  "spec_ticks_per_move g = max 1 (round (of_int FPS / current_speed g))"

text \<open>
  The collisions of a tick. Whether Ghost and Shield count is read after the timers of the
  tick have gone down, as the source does. A move is due when the frame counter, once
  incremented, reaches the cadence.
\<close>

definition ghost_on :: "game \<Rightarrow> bool" where
  "ghost_on g \<longleftrightarrow> GHOST \<in> dom (active_powerups (snake (update_timers g)))"

definition shield_on :: "game \<Rightarrow> bool" where
  "shield_on g \<longleftrightarrow> SHIELD \<in> dom (active_powerups (snake (update_timers g)))"

definition move_due :: "game \<Rightarrow> bool" where
  "move_due g \<longleftrightarrow>
     mode g \<in> set [''CLASSIC'', ''TIME_ATTACK'', ''SURVIVAL''] \<and>
     (case frames_per_move (update_timers g) of
        Inl e \<Rightarrow> False
      | Inr fpm \<Rightarrow> fpm \<le> move_counter g + 1)"

text \<open>The move of the tick is due and \<open>move\<close> returns \<open>False\<close>: a wall or the snake itself.\<close>

definition blocked :: "game \<Rightarrow> bool" where
  "blocked g \<longleftrightarrow>
     move_due g \<and>
     (case move (ghost_on g) (snake (update_timers g)) of
        Inl e \<Rightarrow> False
      | Inr (ok, s) \<Rightarrow> \<not> ok)"

text \<open>The move of the tick succeeds and puts the head on an obstacle that counts.\<close>

definition obstacle_collision :: "game \<Rightarrow> bool" where
  "obstacle_collision g \<longleftrightarrow>
     move_due g \<and>
     (case move (ghost_on g) (snake (update_timers g)) of
        Inl e \<Rightarrow> False
      | Inr (ok, s) \<Rightarrow> ok \<and> obstacle_hit (ghost_on g) (g\<lparr>snake := s\<rparr>))"

text \<open>
  The state right after Shield has absorbed the blocked move of a tick: the state in which
  the move was decided, with the frame counter reset and Shield deleted.
\<close>

definition absorbed :: "game \<Rightarrow> game" where
  "absorbed g =
     (tick_start g)\<lparr>move_counter := 0,
       snake := (snake (tick_start g))\<lparr>active_powerups :=
         (active_powerups (snake (tick_start g)))(SHIELD := None)\<rparr>\<rparr>"

text \<open>A round in mode \<open>m\<close> with the snake at the right wall, Shield active, a move due.\<close>

definition shield_at_wall :: "string \<Rightarrow> game" where
  "shield_at_wall m =
     (session m draws7)
       \<lparr>snake := snake_at_wall\<lparr>active_powerups := [SHIELD \<mapsto> 100]\<rparr>, move_counter := 6\<rparr>"

text \<open>
  A stretch of a session, key events and ticks in any order, in which no tick picks up a
  Shield power-up: no Shield power-up of the field lies where the head is after the tick.
\<close>

inductive without_shield_pickup :: "game \<Rightarrow> game \<Rightarrow> bool" where
  here: "without_shield_pickup g g"
| keys: "without_shield_pickup g g1 \<Longrightarrow> handle_events es g1 = Some (Inr (running, g2)) \<Longrightarrow>
         without_shield_pickup g g2"
| frame: "without_shield_pickup g g1 \<Longrightarrow> update g1 = Some (Inr g2) \<Longrightarrow>
          \<forall>p \<in> set (powerups g1). ptype p = SHIELD \<longrightarrow> pos p \<noteq> hd (body (snake g2)) \<Longrightarrow>
          without_shield_pickup g g2"

text \<open>
  A Survival round with a snake of five cells in row 15, its head in column \<open>x\<close> and
  looking right, an obstacle in the last column of the row, Shield active, a move due.
\<close>

definition survival_row :: "int \<Rightarrow> game" where
  "survival_row x =
     (session ''SURVIVAL'' draws7)
       \<lparr>snake := \<lparr>body = [(x, 15), (x - 1, 15), (x - 2, 15), (x - 3, 15), (x - 4, 15)],
                  direction = RIGHT, grow_pending = 0, active_powerups = [SHIELD \<mapsto> 100]\<rparr>,
        obstacles := [(39, 15)], move_counter := 6\<rparr>"

text \<open>A Classic round with the snake at the right wall, no power-up active, two frames before its move.\<close>

definition bare_at_wall :: game where
  "bare_at_wall = (session ''CLASSIC'' draws7)\<lparr>snake := snake_at_wall, move_counter := 5\<rparr>"

subsection \<open>Two scripted sessions\<close>

text \<open>
  A stretch of a session written as a script: \<open>Wait n\<close> is \<open>n\<close> frames without events,
  \<open>Press k\<close> is the key \<open>k\<close> handled before the next frame. \<open>rounds n ss\<close> plays the script
  \<open>ss\<close> \<open>n\<close> times over.
\<close>

datatype step = Wait nat | Press key

fun ticks :: "nat \<Rightarrow> game \<Rightarrow> (error + game) option" where
  "ticks 0 g = Some (Inr g)"
| "ticks (Suc n) g = (case update g of Some (Inr g') \<Rightarrow> ticks n g' | r \<Rightarrow> r)"

fun play :: "step list \<Rightarrow> game \<Rightarrow> (error + game) option" where
  "play [] g = Some (Inr g)"
| "play (Wait n # ss) g = (case ticks n g of Some (Inr g') \<Rightarrow> play ss g' | r \<Rightarrow> r)"
| "play (Press k # ss) g =
     (case handle_events [KEYDOWN k] g of
        None \<Rightarrow> None
      | Some (Inl e) \<Rightarrow> Some (Inl e)
      | Some (Inr (running, g')) \<Rightarrow> play ss g')"

fun rounds :: "nat \<Rightarrow> step list \<Rightarrow> game \<Rightarrow> (error + game) option" where
  "rounds 0 ss g = Some (Inr g)"
| "rounds (Suc n) ss g = (case play ss g of Some (Inr g') \<Rightarrow> rounds n ss g' | r \<Rightarrow> r)"

text \<open>
  A Time Attack round that ends on a blocked move. The draws put the food at \<open>(5, 5)\<close>, a
  Shield power-up at \<open>(33, 15)\<close> (frame 600) and a Speed Boost at \<open>(34, 15)\<close> (frame 1200).
\<close>

definition ta_draws :: "nat \<Rightarrow> nat" where
  "ta_draws i = (if i < 10 then [5, 5, 5, 5, 33, 15, 1, 34, 15, 0] ! i else 7)"

text \<open>One turn around a square of four cells, a key after each move.\<close>

definition lap :: "step list" where
  "lap = [Wait 7, Press K_DOWN, Wait 7, Press K_LEFT, Wait 7, Press K_UP, Wait 7, Press K_RIGHT]"

text \<open>The menu after \<open>__init__\<close>, and the round after the key \<open>2\<close>.\<close>

definition ta_menu :: game where
  "ta_menu =
     \<lparr>mode = ''MENU'', last_mode = None, snake = reset, score = 0, move_counter = 0,
      base_speed = 8, speed_multiplier = 1, powerups = [], obstacles = [],
      time_remaining = 3600, powerup_spawn_counter = 0, food_pos = (5, 5),
      high_scores = load_high_scores None, saved = [], rand = ta_draws, rand_pos = 2\<rparr>"

definition ta_start :: game where
  "ta_start = ta_menu\<lparr>mode := ''TIME_ATTACK'', rand_pos := 4\<rparr>"

definition shield_33 :: PowerUp where
  "shield_33 = \<lparr>ptype = SHIELD, pos = (33, 15), duration = 300\<rparr>"

definition boost_34 :: PowerUp where
  "boost_34 = \<lparr>ptype = SPEED_BOOST, pos = (34, 15), duration = 300\<rparr>"

text \<open>
  The round after a whole number of laps: \<open>c\<close> frames since the last periodic spawn, \<open>t\<close>
  frames left, the power-ups \<open>ps\<close> on the field.
\<close>

definition ta_circling :: "int \<Rightarrow> int \<Rightarrow> PowerUp list \<Rightarrow> game" where
  "ta_circling c t ps =
     ta_start\<lparr>snake := reset\<lparr>body := [(20, 15), (20, 16), (21, 16)]\<rparr>, powerups := ps,
       time_remaining := t, powerup_spawn_counter := c, rand_pos := 4 + 3 * length ps\<rparr>"

text \<open>
  The round before its frame 3600: the snake picked up Shield on frame 3563 and Speed Boost
  on frame 3570, its last move was on frame 3595, and its head looks at the right wall.
\<close>

definition time_attack_last :: game where
  "time_attack_last =
     ta_start\<lparr>snake := snake_at_wall\<lparr>active_powerups := [SPEED_BOOST \<mapsto> 271, SHIELD \<mapsto> 264]\<rparr>,
       move_counter := 4, time_remaining := 1, powerup_spawn_counter := 599, rand_pos := 10\<rparr>"

text \<open>
  A Survival round that ends on a blocked move. The draws put the food at \<open>(21, 15)\<close>, then
  \<open>(22, 15)\<close>, then \<open>(5, 5)\<close>, the obstacle at \<open>(39, 15)\<close>, a Ghost power-up at \<open>(37, 15)\<close>
  (frame 600) and a Shield power-up at \<open>(38, 15)\<close> (frame 1200).
\<close>

definition sv_draws :: "nat \<Rightarrow> nat" where
  "sv_draws i =
     (if i < 16 then [5, 5, 21, 15, 22, 15, 5, 5, 39, 15, 37, 15, 3, 38, 15, 1] ! i else 7)"

text \<open>One turn around a rectangle of six cells.\<close>

definition box :: "step list" where
  "box = [Wait 14, Press K_DOWN, Wait 7, Press K_LEFT, Wait 14, Press K_UP, Wait 7,
          Press K_RIGHT]"

definition sv_menu :: game where
  "sv_menu = ta_menu\<lparr>rand := sv_draws\<rparr>"

definition sv_start :: game where
  "sv_start = sv_menu\<lparr>mode := ''SURVIVAL'', food_pos := (21, 15), rand_pos := 4\<rparr>"

text \<open>After 21 frames the snake has eaten twice and has five cells; the obstacle is there.\<close>

definition sv_grown :: game where
  "sv_grown =
     sv_start\<lparr>snake := reset\<lparr>body := [(23, 15), (22, 15), (21, 15), (20, 15), (19, 15)]\<rparr>,
       score := 20, obstacles := [(39, 15)], powerup_spawn_counter := 21, food_pos := (5, 5),
       rand_pos := 10\<rparr>"

definition ghost_37 :: PowerUp where
  "ghost_37 = \<lparr>ptype = GHOST, pos = (37, 15), duration = 300\<rparr>"

definition sv_circling :: "int \<Rightarrow> PowerUp list \<Rightarrow> game" where
  "sv_circling c ps =
     sv_grown\<lparr>snake := reset\<lparr>body := [(23, 15), (23, 16), (24, 16), (25, 16), (25, 15)]\<rparr>,
       powerups := ps, powerup_spawn_counter := c, rand_pos := 10 + 3 * length ps\<rparr>"

text \<open>Frame 917: the snake has left the rectangle along row 15 and picks up Ghost.\<close>

definition sv_ghost :: game where
  "sv_ghost =
     sv_grown\<lparr>snake := \<lparr>body = [(37, 15), (36, 15), (35, 15), (34, 15), (33, 15)],
                          direction = RIGHT, grow_pending = 0,
                          active_powerups = [GHOST \<mapsto> 300]\<rparr>,
       powerup_spawn_counter := 317, rand_pos := 13\<rparr>"

text \<open>
  The round before its frame 1218. With Ghost the snake went once around row 15, picked up
  Shield at \<open>(38, 15)\<close> on frame 1204 and moved onto the obstacle on frame 1211; Ghost ran out
  on frame 1217.
\<close>

definition survival_last :: game where
  "survival_last =
     sv_grown\<lparr>snake := \<lparr>body = [(39, 15), (38, 15), (37, 15), (36, 15), (35, 15)],
                          direction = RIGHT, grow_pending = 0,
                          active_powerups = [SHIELD \<mapsto> 287]\<rparr>,
       move_counter := 6, powerup_spawn_counter := 17, rand_pos := 16\<rparr>"

section \<open>Properties of the snake\<close>

lemma grid_consts: "GRID_WIDTH = 40" "GRID_HEIGHT = 30"
  by (simp_all add: GRID_WIDTH_def GRID_HEIGHT_def WIDTH_def HEIGHT_def GRID_SIZE_def)

lemma reset_eq:
  "reset = \<lparr>body = [(20, 15), (19, 15), (18, 15)], direction = RIGHT, grow_pending = 0,
            active_powerups = Map.empty\<rparr>"
  by (simp add: reset_def Let_def grid_consts)

text \<open>
  C1. Without Ghost, a new head outside the grid makes \<open>move\<close> return \<open>False\<close> and leaves
  the snake as it was; a move that succeeds puts the head inside the grid, and a new head
  inside the grid and off \<open>body[1:]\<close> does succeed. With Ghost, \<open>move\<close> takes the new head
  modulo the grid dimensions, so the wall never blocks: the wrapped cell lies inside the
  grid, the move is blocked exactly when that cell is in \<open>body[1:]\<close> (the snake is then
  unchanged), and otherwise it succeeds with the wrapped cell as the new head.
\<close>

theorem move_walls_and_wrap:
  assumes "body s = (hx, hy) # rest" and "Direction_value (direction s) = (dx, dy)"
  shows "(hx + dx < 0 \<or> hx + dx \<ge> GRID_WIDTH \<or> hy + dy < 0 \<or> hy + dy \<ge> GRID_HEIGHT
            \<longrightarrow> move False s = Inr (False, s)) \<and>
         (\<forall>s'. move False s = Inr (True, s') \<longrightarrow>
            hd (body s') = (hx + dx, hy + dy) \<and>
            0 \<le> hx + dx \<and> hx + dx < GRID_WIDTH \<and> 0 \<le> hy + dy \<and> hy + dy < GRID_HEIGHT) \<and>
         (0 \<le> hx + dx \<and> hx + dx < GRID_WIDTH \<and> 0 \<le> hy + dy \<and> hy + dy < GRID_HEIGHT \<and>
          (hx + dx, hy + dy) \<notin> set rest \<longrightarrow>
            (\<exists>s'. move False s = Inr (True, s') \<and>
               body s' = (hx + dx, hy + dy) #
                 (if grow_pending s > 0 then body s else butlast (body s)))) \<and>
         0 \<le> (hx + dx) mod GRID_WIDTH \<and> (hx + dx) mod GRID_WIDTH < GRID_WIDTH \<and>
         0 \<le> (hy + dy) mod GRID_HEIGHT \<and> (hy + dy) mod GRID_HEIGHT < GRID_HEIGHT \<and>
         (((hx + dx) mod GRID_WIDTH, (hy + dy) mod GRID_HEIGHT) \<in> set rest \<longrightarrow>
            move True s = Inr (False, s)) \<and>
         (((hx + dx) mod GRID_WIDTH, (hy + dy) mod GRID_HEIGHT) \<notin> set rest \<longrightarrow>
            (\<exists>s'. move True s = Inr (True, s') \<and>
               body s' = ((hx + dx) mod GRID_WIDTH, (hy + dy) mod GRID_HEIGHT) #
                 (if grow_pending s > 0 then body s else butlast (body s)))) \<and>
         (\<exists>ok s'. move True s = Inr (ok, s') \<and>
            (if ok
             then hd (body s') = ((hx + dx) mod GRID_WIDTH, (hy + dy) mod GRID_HEIGHT) \<and>
                  0 \<le> fst (hd (body s')) \<and> fst (hd (body s')) < GRID_WIDTH \<and>
                  0 \<le> snd (hd (body s')) \<and> snd (hd (body s')) < GRID_HEIGHT
             else s' = s))"
  using assms
  by (auto simp: move_def get_head_def Let_def grid_consts split: if_splits)

theorem move_walls_and_wrap_witness:
  "move False snake_at_wall = Inr (False, snake_at_wall) \<and>
   (\<exists>s'. move True snake_at_wall = Inr (True, s') \<and>
      body s' = [(0, 15), (39, 15), (38, 15)]) \<and>
   (\<exists>s'. move False reset = Inr (True, s') \<and> body s' = [(21, 15), (20, 15), (19, 15)])"
proof -
  have b: "body snake_at_wall = (39, 15) # [(38, 15), (37, 15)]"
    by (simp add: snake_at_wall_def reset_eq)
  have d: "Direction_value (direction snake_at_wall) = (1, 0)"
    by (simp add: snake_at_wall_def reset_eq)
  have g: "grow_pending snake_at_wall = 0" "grow_pending reset = 0"
    by (simp_all add: snake_at_wall_def reset_eq)
  have b0: "body reset = (20, 15) # [(19, 15), (18, 15)]"
    by (simp add: reset_eq)
  have d0: "Direction_value (direction reset) = (1, 0)"
    by (simp add: reset_eq)
  have "39 + 1 \<ge> GRID_WIDTH"
    by (simp add: grid_consts)
  with move_walls_and_wrap [OF b d]
  have "move False snake_at_wall = Inr (False, snake_at_wall)"
    by blast
  moreover have "((39 + 1) mod GRID_WIDTH, (15 + 0) mod GRID_HEIGHT) \<notin>
      set [(38, 15), (37, 15)]"
    by (simp add: grid_consts)
  with move_walls_and_wrap [OF b d] obtain s1 where
    "move True snake_at_wall = Inr (True, s1)"
    "body s1 = ((39 + 1) mod GRID_WIDTH, (15 + 0) mod GRID_HEIGHT) #
       (if grow_pending snake_at_wall > 0 then body snake_at_wall
        else butlast (body snake_at_wall))"
    by blast
  then have "\<exists>s'. move True snake_at_wall = Inr (True, s') \<and>
      body s' = [(0, 15), (39, 15), (38, 15)]"
    using b g by (simp add: grid_consts)
  moreover have "0 \<le> (20::int) + 1 \<and> 20 + 1 < GRID_WIDTH \<and>
      0 \<le> (15::int) + 0 \<and> 15 + 0 < GRID_HEIGHT \<and>
      ((20::int) + 1, (15::int) + 0) \<notin> set [(19, 15), (18, 15)]"
    by (simp add: grid_consts)
  with move_walls_and_wrap [OF b0 d0] obtain s2 where
    "move False reset = Inr (True, s2)"
    "body s2 = (20 + 1, 15 + 0) #
       (if grow_pending reset > 0 then body reset else butlast (body reset))"
    by blast
  then have "\<exists>s'. move False reset = Inr (True, s') \<and> body s' = [(21, 15), (20, 15), (19, 15)]"
    using b0 g by simp
  ultimately show ?thesis
    by blast
qed

text \<open>
  C2. With or without Ghost: when the new head (wrapped under Ghost) is a cell of
  \<open>body[1:]\<close>, \<open>move\<close> returns \<open>False\<close> and the snake is unchanged.
\<close>

theorem move_self_collision:
  assumes "body s = (hx, hy) # rest" and "Direction_value (direction s) = (dx, dy)"
    and "(if has_ghost then ((hx + dx) mod GRID_WIDTH, (hy + dy) mod GRID_HEIGHT)
          else (hx + dx, hy + dy)) \<in> set rest"
  shows "move has_ghost s = Inr (False, s)"
  using assms
  by (auto simp: move_def get_head_def Let_def split: if_splits)

theorem move_self_collision_witness:
  "move True snake_coiled = Inr (False, snake_coiled) \<and>
   move False snake_coiled = Inr (False, snake_coiled)"
proof -
  have b: "body snake_coiled = (20, 15) # [(21, 15), (21, 14), (20, 14), (19, 14)]"
    by (simp add: snake_coiled_def reset_eq)
  have d: "Direction_value (direction snake_coiled) = (0, -1)"
    by (simp add: snake_coiled_def reset_eq)
  have "move True snake_coiled = Inr (False, snake_coiled)"
    by (rule move_self_collision [OF b d]) (simp add: grid_consts)
  moreover have "move False snake_coiled = Inr (False, snake_coiled)"
    by (rule move_self_collision [OF b d]) simp
  ultimately show ?thesis
    by simp
qed

text \<open>
  C3. A move that succeeds puts the new head in front and changes neither the direction
  nor the active power-ups. With \<open>grow_pending\<close> at 0 (or below) the last cell is dropped
  and the length stays; with \<open>grow_pending\<close> positive it goes down by exactly 1, no cell
  is dropped, and the length goes up by exactly 1.
\<close>

theorem move_success:
  assumes "move has_ghost s = Inr (True, s')"
  shows "\<exists>hx hy dx dy rest new_head.
           body s = (hx, hy) # rest \<and> Direction_value (direction s) = (dx, dy) \<and>
           new_head = (if has_ghost then ((hx + dx) mod GRID_WIDTH, (hy + dy) mod GRID_HEIGHT)
                       else (hx + dx, hy + dy)) \<and>
           direction s' = direction s \<and> active_powerups s' = active_powerups s \<and>
           (if grow_pending s > 0
            then body s' = new_head # body s \<and> grow_pending s' = grow_pending s - 1 \<and>
                 length (body s') = length (body s) + 1
            else body s' = new_head # butlast (body s) \<and> grow_pending s' = grow_pending s \<and>
                 length (body s') = length (body s))"
  using assms
  by (cases "body s"; cases "Direction_value (direction s)")
    (auto simp: move_def get_head_def Let_def split: if_splits)

theorem move_success_witness:
  "(\<exists>s'. move False reset = Inr (True, s') \<and> body s' = [(21, 15), (20, 15), (19, 15)] \<and>
      grow_pending s' = 0) \<and>
   (\<exists>s'. move False (grow 1 reset) = Inr (True, s') \<and>
      body s' = [(21, 15), (20, 15), (19, 15), (18, 15)] \<and> grow_pending s' = 0)"
proof -
  obtain s1 where m1: "move False reset = Inr (True, s1)"
    by (simp add: move_def get_head_def reset_eq grid_consts)
  obtain s2 where m2: "move False (grow 1 reset) = Inr (True, s2)"
    by (simp add: move_def get_head_def grow_def reset_eq grid_consts)
  from move_success [OF m1] have "body s1 = [(21, 15), (20, 15), (19, 15)] \<and> grow_pending s1 = 0"
    by (auto simp: reset_eq)
  moreover from move_success [OF m2]
  have "body s2 = [(21, 15), (20, 15), (19, 15), (18, 15)] \<and> grow_pending s2 = 0"
    by (auto simp: reset_eq grow_def)
  ultimately show ?thesis
    using m1 m2 by simp
qed

text \<open>
  C4. On a snake of two cells or more, \<open>set_direction d\<close> is a no-op when the head plus
  the delta of \<open>d\<close> is the second cell, and stores \<open>d\<close> in every other case; on a snake of
  one cell it always stores \<open>d\<close>. (On an empty body the call raises.)
\<close>

theorem set_direction_neck:
  "(body s = [] \<longrightarrow> set_direction d s = Inl IndexError) \<and>
   (\<forall>h. body s = [h] \<longrightarrow> set_direction d s = Inr (s\<lparr>direction := d\<rparr>)) \<and>
   (\<forall>h neck rest. body s = h # neck # rest \<longrightarrow>
      set_direction d s =
        Inr (if (fst h + fst (Direction_value d), snd h + snd (Direction_value d)) = neck
             then s else s\<lparr>direction := d\<rparr>))"
  by (cases "Direction_value d") (auto simp: set_direction_def get_head_def split: prod.splits)

theorem set_direction_neck_witness:
  "set_direction LEFT reset = Inr reset \<and>
   set_direction UP reset = Inr (reset\<lparr>direction := UP\<rparr>) \<and>
   set_direction LEFT (reset\<lparr>body := [(20, 15)]\<rparr>) =
     Inr (reset\<lparr>body := [(20, 15)], direction := LEFT\<rparr>)"
proof -
  have b: "body reset = (20, 15) # (19, 15) # [(18, 15)]"
    by (simp add: reset_eq)
  have b1: "body (reset\<lparr>body := [(20, 15)]\<rparr>) = [(20, 15)]"
    by simp
  from set_direction_neck [of reset LEFT] b have "set_direction LEFT reset = Inr reset"
    by simp
  moreover from set_direction_neck [of reset UP] b
  have "set_direction UP reset = Inr (reset\<lparr>direction := UP\<rparr>)"
    by simp
  moreover from set_direction_neck [of "reset\<lparr>body := [(20, 15)]\<rparr>" LEFT] b1
  have "set_direction LEFT (reset\<lparr>body := [(20, 15)]\<rparr>) =
          Inr (reset\<lparr>body := [(20, 15)], direction := LEFT\<rparr>)"
    by simp
  ultimately show ?thesis
    by simp
qed

section \<open>The parts of the session\<close>

subsection \<open>The spawners\<close>

lemma spawn_food_raw:
  assumes "spawn_food g = Some r"
  shows "fst r \<notin> set (body (snake g)) \<and> fst r \<notin> set (obstacles g) \<and>
     0 \<le> fst (fst r) \<and> fst (fst r) < GRID_WIDTH \<and>
     0 \<le> snd (fst r) \<and> snd (fst r) < GRID_HEIGHT \<and>
     (\<exists>n. snd r = g\<lparr>rand_pos := n\<rparr>)"
proof (rule spawn_food.raw_induct [OF _ assms], goal_cases)
  case (1 f g r)
  show ?case
  proof (cases "candidate g 0 \<notin> set (body (snake g)) \<and> candidate g 0 \<notin> set (obstacles g)")
    case True
    with 1(2) have "r = (candidate g 0, g\<lparr>rand_pos := rand_pos g + 2\<rparr>)"
      by (auto simp: randint_def candidate_def grid_consts)
    with True show ?thesis
      by (auto simp: candidate_def grid_consts)
  next
    case False
    with 1(2) have "f (g\<lparr>rand_pos := rand_pos g + 2\<rparr>) = Some r"
      by (auto simp: randint_def candidate_def grid_consts split: if_splits)
    from 1(1) [OF this] show ?thesis
      by auto
  qed
qed

lemma spawn_food_result:
  assumes "spawn_food g = Some (p, g')"
  shows "p \<notin> set (body (snake g)) \<and> p \<notin> set (obstacles g) \<and>
         0 \<le> fst p \<and> fst p < GRID_WIDTH \<and> 0 \<le> snd p \<and> snd p < GRID_HEIGHT \<and>
         (\<exists>n. g' = g\<lparr>rand_pos := n\<rparr>)"
  using spawn_food_raw [OF assms] by simp

lemma spawn_food_returns:
  assumes "candidate g k \<notin> set (body (snake g))" "candidate g k \<notin> set (obstacles g)"
  shows "\<exists>p g'. spawn_food g = Some (p, g')"
  using assms
proof (induction k arbitrary: g)
  case 0
  then show ?case
    by (subst spawn_food.simps) (auto simp: randint_def candidate_def grid_consts)
next
  case (Suc k)
  let ?g = "g\<lparr>rand_pos := rand_pos g + 2\<rparr>"
  have "candidate ?g k = candidate g (Suc k)"
    by (simp add: candidate_def)
  with Suc.prems have "\<exists>p g'. spawn_food ?g = Some (p, g')"
    by (intro Suc.IH) auto
  then show ?case
    by (subst spawn_food.simps) (auto simp: randint_def grid_consts)
qed

lemma spawn_powerup_loop_result:
  assumes "spawn_powerup_loop g = Some g'"
  shows "\<exists>n p. g' = g\<lparr>rand_pos := n, powerups := powerups g @ [p]\<rparr> \<and>
           free_for_powerup g (pos p) \<and> duration p = 300"
proof (rule spawn_powerup_loop.raw_induct [OF _ assms], goal_cases)
  case (1 f g g')
  show ?case
  proof (cases "free_for_powerup g (candidate g 0)")
    case True
    define p where "p = \<lparr>ptype = fst (choice [SPEED_BOOST, SHIELD, MULTIPLIER, GHOST]
                                      (g\<lparr>rand_pos := rand_pos g + 2\<rparr>)),
                          pos = candidate g 0, duration = 300\<rparr>"
    from True 1(2) have "g' = g\<lparr>rand_pos := rand_pos g + 3, powerups := powerups g @ [p]\<rparr>"
      by (auto simp: randint_def choice_def candidate_def free_for_powerup_def grid_consts
          p_def)
    moreover have "pos p = candidate g 0" "duration p = 300"
      by (simp_all add: p_def)
    ultimately show ?thesis
      using True by (intro exI [of _ "rand_pos g + 3"] exI [of _ p]) simp
  next
    case False
    with 1(2) have "f (g\<lparr>rand_pos := rand_pos g + 2\<rparr>) = Some g'"
      by (auto simp: randint_def candidate_def free_for_powerup_def grid_consts
          split: if_splits)
    from 1(1) [OF this] show ?thesis
      by (auto simp: free_for_powerup_def)
  qed
qed

lemma spawn_powerup_result:
  assumes "spawn_powerup g = Some g'"
  shows "(length (powerups g) \<ge> 2 \<and> g' = g) \<or>
         (length (powerups g) < 2 \<and>
          (\<exists>n p. g' = g\<lparr>rand_pos := n, powerups := powerups g @ [p]\<rparr> \<and>
             free_for_powerup g (pos p) \<and> duration p = 300))"
  using assms spawn_powerup_loop_result [of g g']
  by (auto simp: spawn_powerup_def split: if_splits)

lemma spawn_obstacle_result:
  assumes "spawn_obstacle g = Some g'"
  shows "\<exists>n c. g' = g\<lparr>rand_pos := n, obstacles := obstacles g @ [c]\<rparr> \<and>
           free_for_powerup g c"
proof (rule spawn_obstacle.raw_induct [OF _ assms], goal_cases)
  case (1 f g g')
  show ?case
  proof (cases "free_for_powerup g (candidate g 0)")
    case True
    with 1(2) show ?thesis
      by (auto simp: randint_def candidate_def free_for_powerup_def grid_consts)
  next
    case False
    with 1(2) have "f (g\<lparr>rand_pos := rand_pos g + 2\<rparr>) = Some g'"
      by (auto simp: randint_def candidate_def free_for_powerup_def grid_consts
          split: if_splits)
    from 1(1) [OF this] show ?thesis
      by (auto simp: free_for_powerup_def)
  qed
qed

subsection \<open>Game over\<close>

lemma game_over_fields [simp]:
  "mode (game_over g) = ''GAME_OVER''"
  "last_mode (game_over g) = Some (mode g)"
  "snake (game_over g) = snake g"
  "score (game_over g) = score g"
  "move_counter (game_over g) = move_counter g"
  "base_speed (game_over g) = base_speed g"
  "speed_multiplier (game_over g) = speed_multiplier g"
  "powerups (game_over g) = powerups g"
  "obstacles (game_over g) = obstacles g"
  "time_remaining (game_over g) = time_remaining g"
  "powerup_spawn_counter (game_over g) = powerup_spawn_counter g"
  "food_pos (game_over g) = food_pos g"
  "rand (game_over g) = rand g"
  "rand_pos (game_over g) = rand_pos g"
  by (simp_all add: game_over_def save_high_scores_def Let_def)

lemma lower_modes:
  "lower ''CLASSIC'' = ''classic''"
  "lower ''TIME_ATTACK'' = ''time_attack''"
  "lower ''SURVIVAL'' = ''survival''"
  by code_simp+

subsection \<open>The parts of a tick\<close>

lemma move_blocked_same: "move gh s = Inr (False, s') \<Longrightarrow> s' = s"
  by (auto simp: move_def get_head_def Let_def split: list.splits prod.splits if_splits)

lemma move_body: "move gh s = Inr (ok, s') \<Longrightarrow> body s \<noteq> [] \<and> body s' \<noteq> []"
  by (auto simp: move_def get_head_def Let_def split: list.splits prod.splits if_splits)

lemma move_total: "body s \<noteq> [] \<Longrightarrow> \<exists>ok s'. move gh s = Inr (ok, s')"
  by (auto simp: move_def get_head_def Let_def split: list.splits prod.splits if_splits)

lemma move_frame:
  "move gh s = Inr (ok, s') \<Longrightarrow>
     direction s' = direction s \<and> active_powerups s' = active_powerups s"
  by (auto simp: move_def get_head_def Let_def split: list.splits prod.splits if_splits)

lemma move_raises: "move gh s = Inl e \<Longrightarrow> body s = []"
  by (auto simp: move_def get_head_def Let_def split: list.splits prod.splits if_splits)

lemma resolve_move_cases:
  assumes "resolve_move gh g = Inr fl"
  obtains
    (moved) s where "move gh (snake g) = Inr (True, s)" "fl = Continue (g\<lparr>snake := s\<rparr>)"
  | (shielded) "move gh (snake g) = Inr (False, snake g)"
      "SHIELD \<in> dom (active_powerups (snake g))"
      "fl = Continue (g\<lparr>snake := (snake g)\<lparr>active_powerups :=
                          (active_powerups (snake g))(SHIELD := None)\<rparr>\<rparr>)"
  | (fatal) "move gh (snake g) = Inr (False, snake g)"
      "SHIELD \<notin> dom (active_powerups (snake g))"
      "fl = Return (game_over g)"
proof (cases "move gh (snake g)")
  case (Inl e)
  with assms show ?thesis
    by (simp add: resolve_move_def)
next
  case (Inr r)
  obtain ok s where r: "r = (ok, s)"
    by (cases r)
  show ?thesis
  proof (cases ok)
    case True
    with assms Inr r moved show ?thesis
      by (simp add: resolve_move_def)
  next
    case False
    with Inr r have same: "s = snake g"
      by (auto dest: move_blocked_same)
    show ?thesis
    proof (cases "SHIELD \<in> dom (active_powerups (snake g))")
      case True
      with assms Inr r \<open>\<not> ok\<close> same shielded show ?thesis
        by (simp add: resolve_move_def)
    next
      case False
      with assms Inr r \<open>\<not> ok\<close> same fatal show ?thesis
        by (simp add: resolve_move_def)
    qed
  qed
qed

lemma check_obstacle_cases:
  assumes "check_obstacle gh g = Inr fl" and "body (snake g) = h # t"
  obtains
    (clear) "\<not> (mode g = ''SURVIVAL'' \<and> \<not> gh \<and> h \<in> set (obstacles g))" "fl = Continue g"
  | (shielded) "mode g = ''SURVIVAL''" "\<not> gh" "h \<in> set (obstacles g)"
      "SHIELD \<in> dom (active_powerups (snake g))"
      "fl = Continue (g\<lparr>snake := (snake g)\<lparr>active_powerups :=
                          (active_powerups (snake g))(SHIELD := None)\<rparr>,
                        obstacles := filter (\<lambda>c. c \<noteq> h) (obstacles g)\<rparr>)"
  | (fatal) "mode g = ''SURVIVAL''" "\<not> gh" "h \<in> set (obstacles g)"
      "SHIELD \<notin> dom (active_powerups (snake g))"
      "fl = Return (game_over g)"
  using assms that
  by (auto simp: check_obstacle_def get_head_def split: if_splits)

lemma grow_fields [simp]:
  "body (grow n s) = body s" "direction (grow n s) = direction s"
  "active_powerups (grow n s) = active_powerups s"
  "grow_pending (grow n s) = grow_pending s + n"
  by (simp_all add: grow_def)

lemma check_food_cases:
  assumes "check_food g = Some (Inr g')" and "body (snake g) = h # t"
  obtains
    (none) "h \<noteq> food_pos g" "g' = g"
  | (eaten) n p where "h = food_pos g"
      "g' = g\<lparr>snake := grow 1 (snake g),
              score := score g + 10 * (if MULTIPLIER \<in> dom (active_powerups (snake g))
                                       then 2 else 1),
              rand_pos := n, food_pos := p\<rparr>"
      "p \<notin> set (body (snake g))" "p \<notin> set (obstacles g)"
proof (cases "h = food_pos g")
  case False
  have "check_food g = Some (Inr g)"
    unfolding check_food_def get_head_def using assms(2) False by simp
  with assms(1) have "g' = g"
    by simp
  with False show ?thesis
    by (rule none)
next
  case True
  let ?g = "g\<lparr>snake := grow 1 (snake g),
              score := score g + 10 * (if MULTIPLIER \<in> dom (active_powerups (snake g))
                                       then 2 else 1)\<rparr>"
  have eq: "check_food g =
          (case spawn_food ?g of None \<Rightarrow> None
           | Some (p, g2) \<Rightarrow> Some (Inr (g2\<lparr>food_pos := p\<rparr>)))"
    unfolding check_food_def get_head_def using assms(2) True by (simp add: Let_def)
  with assms(1)
  have "(case spawn_food ?g of None \<Rightarrow> None
         | Some (p, g2) \<Rightarrow> Some (Inr (g2\<lparr>food_pos := p\<rparr>))) =
        Some (Inr g' :: error + game)"
    by simp
  then obtain p g2 where sp: "spawn_food ?g = Some (p, g2)"
    and g': "g' = g2\<lparr>food_pos := p\<rparr>"
    by (auto split: option.splits)
  from spawn_food_result [OF sp] obtain n where
    free: "p \<notin> set (body (snake g))" "p \<notin> set (obstacles g)"
    and g2: "g2 = ?g\<lparr>rand_pos := n\<rparr>"
    by auto
  show ?thesis
    by (rule eaten [OF True _ free]) (simp add: g' g2)
qed

lemma check_powerups_general:
  assumes "body (snake g) = h # t" and "powerups g = pre @ ps"
    and "\<forall>x\<in>set pre. pos x \<noteq> h"
  shows "\<exists>a. check_powerups ps g =
               Inr (g\<lparr>snake := (snake g)\<lparr>active_powerups := a\<rparr>,
                      powerups := pre @ filter (\<lambda>p. pos p \<noteq> h) ps\<rparr>) \<and>
             dom a = dom (active_powerups (snake g)) \<union> ptype ` {p \<in> set ps. pos p = h} \<and>
             (\<forall>ty. ty \<notin> ptype ` {p \<in> set ps. pos p = h} \<longrightarrow>
                   a ty = active_powerups (snake g) ty)"
  using assms
proof (induction ps arbitrary: g pre)
  case Nil
  then show ?case
    by (intro exI [of _ "active_powerups (snake g)"]) simp
next
  case (Cons p ps)
  show ?case
  proof (cases "h = pos p")
    case True
    let ?g = "g\<lparr>snake := (snake g)\<lparr>active_powerups :=
                  (active_powerups (snake g))(ptype p \<mapsto> duration p)\<rparr>,
                powerups := remove1 p (powerups g)\<rparr>"
    from Cons.prems True have "p \<notin> set pre"
      by auto
    with Cons.prems have ps: "powerups ?g = pre @ ps"
      by (simp add: remove1_append)
    have b: "body (snake ?g) = h # t"
      using Cons.prems by simp
    from Cons.IH [OF b ps Cons.prems(3)] obtain a where
      a: "check_powerups ps ?g =
            Inr (?g\<lparr>snake := (snake ?g)\<lparr>active_powerups := a\<rparr>,
                    powerups := pre @ filter (\<lambda>p. pos p \<noteq> h) ps\<rparr>)"
        "dom a = dom (active_powerups (snake ?g)) \<union> ptype ` {p \<in> set ps. pos p = h}"
        "\<forall>ty. ty \<notin> ptype ` {p \<in> set ps. pos p = h} \<longrightarrow> a ty = active_powerups (snake ?g) ty"
      by blast
    show ?thesis
    proof (intro exI [of _ a] conjI)
      from a(1) Cons.prems True
      show "check_powerups (p # ps) g =
              Inr (g\<lparr>snake := (snake g)\<lparr>active_powerups := a\<rparr>,
                     powerups := pre @ filter (\<lambda>p. pos p \<noteq> h) (p # ps)\<rparr>)"
        by (simp add: get_head_def)
      from a(2) True
      show "dom a = dom (active_powerups (snake g)) \<union> ptype ` {q \<in> set (p # ps). pos q = h}"
        by auto
      show "\<forall>ty. ty \<notin> ptype ` {q \<in> set (p # ps). pos q = h} \<longrightarrow>
                 a ty = active_powerups (snake g) ty"
      proof (intro allI impI)
        fix ty
        assume "ty \<notin> ptype ` {q \<in> set (p # ps). pos q = h}"
        with True have "ty \<noteq> ptype p" "ty \<notin> ptype ` {q \<in> set ps. pos q = h}"
          by auto
        with a(3) show "a ty = active_powerups (snake g) ty"
          by simp
      qed
    qed
  next
    case False
    from Cons.prems False have "powerups g = (pre @ [p]) @ ps" "\<forall>x\<in>set (pre @ [p]). pos x \<noteq> h"
      by auto
    from Cons.IH [OF Cons.prems(1) this] obtain a where
      a: "check_powerups ps g =
            Inr (g\<lparr>snake := (snake g)\<lparr>active_powerups := a\<rparr>,
                   powerups := (pre @ [p]) @ filter (\<lambda>p. pos p \<noteq> h) ps\<rparr>)"
        "dom a = dom (active_powerups (snake g)) \<union> ptype ` {p \<in> set ps. pos p = h}"
        "\<forall>ty. ty \<notin> ptype ` {p \<in> set ps. pos p = h} \<longrightarrow> a ty = active_powerups (snake g) ty"
      by blast
    with Cons.prems False show ?thesis
      by (intro exI [of _ a]) (auto simp: get_head_def)
  qed
qed

lemma check_powerups_result:
  assumes "body (snake g) = h # t"
  shows "\<exists>a. check_powerups (powerups g) g =
               Inr (g\<lparr>snake := (snake g)\<lparr>active_powerups := a\<rparr>,
                      powerups := filter (\<lambda>p. pos p \<noteq> h) (powerups g)\<rparr>) \<and>
             dom a = dom (active_powerups (snake g)) \<union>
                     ptype ` {p \<in> set (powerups g). pos p = h} \<and>
             (\<forall>ty. ty \<notin> ptype ` {p \<in> set (powerups g). pos p = h} \<longrightarrow>
                   a ty = active_powerups (snake g) ty)"
  using check_powerups_general [OF assms, of "[]" "powerups g"] by simp



lemma food_powerups_result:
  assumes cf: "check_food g = Some (Inr g2)"
    and cp: "check_powerups (powerups g2) g2 = Inr g3"
    and b: "body (snake g) = h # t"
  shows "body (snake g3) = body (snake g) \<and> direction (snake g3) = direction (snake g) \<and>
         grow_pending (snake g3) = grow_pending (snake g) + (if h = food_pos g then 1 else 0) \<and>
         dom (active_powerups (snake g3)) =
           dom (active_powerups (snake g)) \<union> ptype ` {p \<in> set (powerups g). pos p = h} \<and>
         (\<forall>ty. ty \<notin> ptype ` {p \<in> set (powerups g). pos p = h} \<longrightarrow>
               active_powerups (snake g3) ty = active_powerups (snake g) ty) \<and>
         mode g3 = mode g \<and> last_mode g3 = last_mode g \<and> high_scores g3 = high_scores g \<and>
         saved g3 = saved g \<and> move_counter g3 = move_counter g \<and>
         base_speed g3 = base_speed g \<and> speed_multiplier g3 = speed_multiplier g \<and>
         time_remaining g3 = time_remaining g \<and>
         powerup_spawn_counter g3 = powerup_spawn_counter g \<and> rand g3 = rand g \<and>
         obstacles g3 = obstacles g \<and>
         powerups g3 = filter (\<lambda>p. pos p \<noteq> h) (powerups g) \<and>
         score g3 = score g +
           (if h = food_pos g
            then 10 * (if MULTIPLIER \<in> dom (active_powerups (snake g)) then 2 else 1) else 0) \<and>
         (if h = food_pos g
          then food_pos g3 \<notin> set (body (snake g)) \<and> food_pos g3 \<notin> set (obstacles g)
          else food_pos g3 = food_pos g \<and> rand_pos g3 = rand_pos g)"
proof -
  have g2: "body (snake g2) = h # t \<and> direction (snake g2) = direction (snake g) \<and>
         grow_pending (snake g2) = grow_pending (snake g) + (if h = food_pos g then 1 else 0) \<and>
         active_powerups (snake g2) = active_powerups (snake g) \<and>
         mode g2 = mode g \<and> last_mode g2 = last_mode g \<and> high_scores g2 = high_scores g \<and>
         saved g2 = saved g \<and> move_counter g2 = move_counter g \<and>
         base_speed g2 = base_speed g \<and> speed_multiplier g2 = speed_multiplier g \<and>
         time_remaining g2 = time_remaining g \<and>
         powerup_spawn_counter g2 = powerup_spawn_counter g \<and> rand g2 = rand g \<and>
         obstacles g2 = obstacles g \<and> powerups g2 = powerups g \<and>
         score g2 = score g +
           (if h = food_pos g
            then 10 * (if MULTIPLIER \<in> dom (active_powerups (snake g)) then 2 else 1) else 0) \<and>
         (if h = food_pos g
          then food_pos g2 \<notin> set (body (snake g)) \<and> food_pos g2 \<notin> set (obstacles g)
          else food_pos g2 = food_pos g \<and> rand_pos g2 = rand_pos g)"
    using cf b
  proof (cases rule: check_food_cases)
    case none
    with b show ?thesis by simp
  next
    case (eaten n p)
    with b show ?thesis by simp
  qed
  then have b2: "body (snake g2) = h # t"
    by simp
  from check_powerups_result [OF b2] obtain a where
    a: "check_powerups (powerups g2) g2 =
         Inr (g2\<lparr>snake := (snake g2)\<lparr>active_powerups := a\<rparr>,
                powerups := filter (\<lambda>p. pos p \<noteq> h) (powerups g2)\<rparr>)"
      "dom a = dom (active_powerups (snake g2)) \<union> ptype ` {p \<in> set (powerups g2). pos p = h}"
      "\<forall>ty. ty \<notin> ptype ` {p \<in> set (powerups g2). pos p = h} \<longrightarrow>
            a ty = active_powerups (snake g2) ty"
    by blast
  from a(1) cp have g3: "g3 = g2\<lparr>snake := (snake g2)\<lparr>active_powerups := a\<rparr>,
                powerups := filter (\<lambda>p. pos p \<noteq> h) (powerups g2)\<rparr>"
    by simp
  from g2 a(2) a(3) b show ?thesis
    unfolding g3 by (simp split: if_splits)
qed


lemma after_move_result:
  assumes am: "after_move gh g = Some (Inr fl)" and b: "body (snake g) = h # t"
  shows "(obstacle_hit gh g \<and> SHIELD \<notin> dom (active_powerups (snake g)) \<and>
          fl = Return (game_over g)) \<or>
         (\<exists>g'. fl = Continue g' \<and>
            (obstacle_hit gh g \<longrightarrow> SHIELD \<in> dom (active_powerups (snake g))) \<and>
            body (snake g') = body (snake g) \<and> direction (snake g') = direction (snake g) \<and>
            grow_pending (snake g') =
              grow_pending (snake g) + (if h = food_pos g then 1 else 0) \<and>
            dom (active_powerups (snake g')) =
              (dom (active_powerups (snake g)) - (if obstacle_hit gh g then {SHIELD} else {})) \<union>
              ptype ` {p \<in> set (powerups g). pos p = h} \<and>
            (\<forall>ty. ty \<notin> ptype ` {p \<in> set (powerups g). pos p = h} \<longrightarrow>
                  active_powerups (snake g') ty =
                    (if obstacle_hit gh g \<and> ty = SHIELD then None
                     else active_powerups (snake g) ty)) \<and>
            mode g' = mode g \<and> last_mode g' = last_mode g \<and>
            high_scores g' = high_scores g \<and> saved g' = saved g \<and>
            move_counter g' = move_counter g \<and> base_speed g' = base_speed g \<and>
            speed_multiplier g' = speed_multiplier g \<and>
            time_remaining g' = time_remaining g \<and>
            powerup_spawn_counter g' = powerup_spawn_counter g \<and> rand g' = rand g \<and>
            obstacles g' =
              (if obstacle_hit gh g then filter (\<lambda>c. c \<noteq> h) (obstacles g) else obstacles g) \<and>
            powerups g' = filter (\<lambda>p. pos p \<noteq> h) (powerups g) \<and>
            score g' = score g +
              (if h = food_pos g
               then 10 * (if MULTIPLIER \<in> dom (active_powerups (snake g)) then 2 else 1)
               else 0) \<and>
            (if h = food_pos g
             then food_pos g' \<notin> set (body (snake g)) \<and> food_pos g' \<notin> set (obstacles g')
             else food_pos g' = food_pos g \<and> rand_pos g' = rand_pos g))"
proof -
  have hit: "obstacle_hit gh g \<longleftrightarrow> mode g = ''SURVIVAL'' \<and> \<not> gh \<and> h \<in> set (obstacles g)"
    using b by (simp add: obstacle_hit_def)
  from am obtain fl1 where co: "check_obstacle gh g = Inr fl1"
    by (auto simp: after_move_def split: sum.splits)
  from co b show ?thesis
  proof (cases rule: check_obstacle_cases)
    case fatal
    with am co hit show ?thesis
      by (simp add: after_move_def)
  next
    case clear
    with am co obtain g2 g3 where cf: "check_food g = Some (Inr g2)"
      and cp: "check_powerups (powerups g2) g2 = Inr g3" and fl: "fl = Continue g3"
      by (auto simp: after_move_def split: option.splits sum.splits)
    have "\<not> obstacle_hit gh g"
      using clear(1) hit by simp
    with food_powerups_result [OF cf cp b] fl show ?thesis
      by simp
  next
    case shielded
    let ?g = "g\<lparr>snake := (snake g)\<lparr>active_powerups :=
                          (active_powerups (snake g))(SHIELD := None)\<rparr>,
                        obstacles := filter (\<lambda>c. c \<noteq> h) (obstacles g)\<rparr>"
    have b': "body (snake ?g) = h # t"
      using b by simp
    from shielded am co obtain g2 g3 where cf: "check_food ?g = Some (Inr g2)"
      and cp: "check_powerups (powerups g2) g2 = Inr g3" and fl: "fl = Continue g3"
      by (auto simp: after_move_def split: option.splits sum.splits)
    have h: "obstacle_hit gh g"
      using shielded hit by simp
    from food_powerups_result [OF cf cp b'] h shielded(4) fl show ?thesis
      by (auto split: if_splits)
  qed
qed


lemma periodic_powerup_result:
  assumes "periodic_powerup g = Some g'"
  shows "(\<exists>n. g' = g\<lparr>powerup_spawn_counter :=
                      (if powerup_spawn_counter g + 1 \<ge> FPS * 10 then 0
                       else powerup_spawn_counter g + 1), rand_pos := n\<rparr> \<and>
              \<not> (powerup_spawn_counter g + 1 \<ge> FPS * 10 \<and> length (powerups g) < 2)) \<or>
         (\<exists>n p. g' = g\<lparr>powerup_spawn_counter := 0, rand_pos := n,
                        powerups := powerups g @ [p]\<rparr> \<and>
                 powerup_spawn_counter g + 1 \<ge> FPS * 10 \<and> length (powerups g) < 2 \<and>
                 free_for_powerup g (pos p) \<and> duration p = 300)"
proof (cases "powerup_spawn_counter g + 1 \<ge> FPS * 10")
  case False
  with assms have "g' = g\<lparr>powerup_spawn_counter := powerup_spawn_counter g + 1,
                          rand_pos := rand_pos g\<rparr>"
    by (auto simp: periodic_powerup_def Let_def)
  with False show ?thesis
    by (intro disjI1 exI [of _ "rand_pos g"]) simp
next
  case True
  let ?g = "g\<lparr>powerup_spawn_counter := 0\<rparr>"
  from assms True have sp: "spawn_powerup ?g = Some g'"
    by (simp add: periodic_powerup_def Let_def)
  from spawn_powerup_result [OF sp] show ?thesis
  proof (elim disjE conjE exE)
    assume "2 \<le> length (powerups ?g)" "g' = ?g"
    with True show ?thesis
      by (intro disjI1 exI [of _ "rand_pos g"]) simp
  next
    fix n p
    assume "length (powerups ?g) < 2"
      "g' = ?g\<lparr>rand_pos := n, powerups := powerups ?g @ [p]\<rparr>"
      "free_for_powerup ?g (pos p)" "duration p = 300"
    with True show ?thesis
      by (intro disjI2 exI [of _ n] exI [of _ p]) (simp add: free_for_powerup_def)
  qed
qed

lemma survival_obstacles_result:
  assumes "survival_obstacles g = Some g'"
  shows "g' = g \<or>
         (mode g = ''SURVIVAL'' \<and>
          (\<exists>n c. g' = g\<lparr>rand_pos := n, obstacles := obstacles g @ [c]\<rparr> \<and>
                  free_for_powerup g c))"
  using assms spawn_obstacle_result [of g g']
  by (auto simp: survival_obstacles_def split: if_splits)

lemma end_of_tick_result:
  assumes "end_of_tick g = Some (Inr g')"
  shows "\<exists>gm. g' = (if mode g = ''TIME_ATTACK'' \<and> time_remaining g - 1 \<le> 0
                    then game_over gm else gm) \<and>
           snake gm = snake g \<and> mode gm = mode g \<and> last_mode gm = last_mode g \<and>
           high_scores gm = high_scores g \<and> saved gm = saved g \<and> score gm = score g \<and>
           move_counter gm = move_counter g \<and> base_speed gm = base_speed g \<and>
           speed_multiplier gm = speed_multiplier g \<and> food_pos gm = food_pos g \<and>
           rand gm = rand g \<and>
           time_remaining gm =
             (if mode g = ''TIME_ATTACK'' then time_remaining g - 1 else time_remaining g) \<and>
           powerup_spawn_counter gm =
             (if powerup_spawn_counter g + 1 \<ge> FPS * 10 then 0
              else powerup_spawn_counter g + 1) \<and>
           (if powerup_spawn_counter g + 1 \<ge> FPS * 10 \<and> length (powerups g) < 2
            then \<exists>p. powerups gm = powerups g @ [p] \<and> free_for_powerup g (pos p) \<and>
                     duration p = 300
            else powerups gm = powerups g) \<and>
           (obstacles gm = obstacles g \<or>
            (mode g = ''SURVIVAL'' \<and>
             (\<exists>c. obstacles gm = obstacles g @ [c] \<and> c \<notin> set (body (snake g)) \<and>
                   c \<noteq> food_pos g \<and> c \<notin> set (map pos (powerups gm)) \<and>
                   c \<notin> set (obstacles g))))"
proof -
  from assms obtain g1 g2 where pp: "periodic_powerup g = Some g1"
    and so: "survival_obstacles g1 = Some g2" and g': "g' = time_attack g2"
    by (auto simp: end_of_tick_def split: option.splits)
  have g1: "snake g1 = snake g \<and> mode g1 = mode g \<and> last_mode g1 = last_mode g \<and>
           high_scores g1 = high_scores g \<and> saved g1 = saved g \<and> score g1 = score g \<and>
           move_counter g1 = move_counter g \<and> base_speed g1 = base_speed g \<and>
           speed_multiplier g1 = speed_multiplier g \<and> food_pos g1 = food_pos g \<and>
           rand g1 = rand g \<and> time_remaining g1 = time_remaining g \<and>
           obstacles g1 = obstacles g \<and>
           powerup_spawn_counter g1 =
             (if powerup_spawn_counter g + 1 \<ge> FPS * 10 then 0
              else powerup_spawn_counter g + 1) \<and>
           (if powerup_spawn_counter g + 1 \<ge> FPS * 10 \<and> length (powerups g) < 2
            then \<exists>p. powerups g1 = powerups g @ [p] \<and> free_for_powerup g (pos p) \<and>
                     duration p = 300
            else powerups g1 = powerups g)"
    using periodic_powerup_result [OF pp] by (elim disjE exE conjE) simp_all
  have g2: "snake g2 = snake g1 \<and> mode g2 = mode g1 \<and> last_mode g2 = last_mode g1 \<and>
           high_scores g2 = high_scores g1 \<and> saved g2 = saved g1 \<and> score g2 = score g1 \<and>
           move_counter g2 = move_counter g1 \<and> base_speed g2 = base_speed g1 \<and>
           speed_multiplier g2 = speed_multiplier g1 \<and> food_pos g2 = food_pos g1 \<and>
           rand g2 = rand g1 \<and> time_remaining g2 = time_remaining g1 \<and>
           powerup_spawn_counter g2 = powerup_spawn_counter g1 \<and>
           powerups g2 = powerups g1 \<and>
           (obstacles g2 = obstacles g1 \<or>
            (mode g1 = ''SURVIVAL'' \<and>
             (\<exists>c. obstacles g2 = obstacles g1 @ [c] \<and> c \<notin> set (body (snake g1)) \<and>
                   c \<noteq> food_pos g1 \<and> c \<notin> set (map pos (powerups g1)) \<and>
                   c \<notin> set (obstacles g1))))"
    using survival_obstacles_result [OF so]
    by (elim disjE exE conjE) (simp_all add: free_for_powerup_def)
  let ?gm = "if mode g = ''TIME_ATTACK''
             then g2\<lparr>time_remaining := time_remaining g2 - 1\<rparr> else g2"
  have "g' = (if mode g = ''TIME_ATTACK'' \<and> time_remaining g - 1 \<le> 0
              then game_over ?gm else ?gm)"
    using g' g1 g2 by (simp add: time_attack_def Let_def)
  with g1 g2 show ?thesis
    by (intro exI [of _ ?gm]) (simp split: if_splits)
qed


subsection \<open>The whole tick\<close>

lemma tick_start_fields [simp]:
  "body (snake (tick_start g)) = body (snake g)"
  "direction (snake (tick_start g)) = direction (snake g)"
  "grow_pending (snake (tick_start g)) = grow_pending (snake g)"
  "active_powerups (snake (tick_start g)) = active_powerups (snake (update_timers g))"
  "mode (tick_start g) = mode g" "last_mode (tick_start g) = last_mode g"
  "score (tick_start g) = score g" "move_counter (tick_start g) = move_counter g + 1"
  "base_speed (tick_start g) = base_speed g"
  "speed_multiplier (tick_start g) = speed_multiplier g"
  "powerups (tick_start g) = powerups g" "obstacles (tick_start g) = obstacles g"
  "time_remaining (tick_start g) = time_remaining g"
  "powerup_spawn_counter (tick_start g) = powerup_spawn_counter g"
  "food_pos (tick_start g) = food_pos g" "high_scores (tick_start g) = high_scores g"
  "saved (tick_start g) = saved g" "rand (tick_start g) = rand g"
  "rand_pos (tick_start g) = rand_pos g"
  by (simp_all add: tick_start_def update_timers_def)

lemma update_timers_active:
  "active_powerups (snake (update_timers g)) ty =
     (case active_powerups (snake g) ty of
        None \<Rightarrow> None
      | Some remaining \<Rightarrow> if remaining - 1 \<le> 0 then None else Some (remaining - 1))"
  by (simp add: update_timers_def)

lemma update_inactive:
  "mode g \<notin> {''CLASSIC'', ''TIME_ATTACK'', ''SURVIVAL''} \<Longrightarrow> update g = Some (Inr g)"
  by (simp add: update_def)

lemma update_result:
  assumes "update g = Some (Inr g')"
    and "mode g \<in> {''CLASSIC'', ''TIME_ATTACK'', ''SURVIVAL''}"
  shows "\<exists>fpm. frames_per_move (update_timers g) = Inr fpm \<and>
           (if move_counter g + 1 \<ge> fpm
            then move_tick (tick_start g) = Some (Inr (Return g')) \<or>
                 (\<exists>g2. move_tick (tick_start g) = Some (Inr (Continue g2)) \<and>
                       end_of_tick g2 = Some (Inr g'))
            else end_of_tick (tick_start g) = Some (Inr g'))"
proof (cases "frames_per_move (update_timers g)")
  case (Inl e)
  with assms show ?thesis
    by (auto simp: update_def Let_def)
next
  case (Inr fpm)
  have mc: "move_counter (update_timers g) = move_counter g"
    by (simp add: update_timers_def)
  show ?thesis
  proof (cases "move_counter g + 1 \<ge> fpm")
    case False
    with assms Inr mc have "end_of_tick (tick_start g) = Some (Inr g')"
      by (auto simp: update_def Let_def tick_start_def)
    with Inr False show ?thesis
      by simp
  next
    case True
    with assms Inr mc
    have "(case move_tick (tick_start g) of
             None \<Rightarrow> None
           | Some (Inl e) \<Rightarrow> Some (Inl e)
           | Some (Inr (Return g)) \<Rightarrow> Some (Inr g)
           | Some (Inr (Continue g)) \<Rightarrow> end_of_tick g) = Some (Inr g')"
      by (auto simp: update_def Let_def tick_start_def)
    then have "move_tick (tick_start g) = Some (Inr (Return g')) \<or>
               (\<exists>g2. move_tick (tick_start g) = Some (Inr (Continue g2)) \<and>
                     end_of_tick g2 = Some (Inr g'))"
      by (auto split: option.splits sum.splits flow.splits)
    with Inr True show ?thesis
      by simp
  qed
qed

lemma move_tick_result:
  assumes "move_tick g = Some (Inr fl)"
  shows "\<exists>ok s. move (GHOST \<in> dom (active_powerups (snake g))) (snake g) = Inr (ok, s) \<and>
           (if ok
            then after_move (GHOST \<in> dom (active_powerups (snake g)))
                   (g\<lparr>move_counter := 0, snake := s\<rparr>) = Some (Inr fl)
            else s = snake g \<and>
                 (if SHIELD \<in> dom (active_powerups (snake g))
                  then after_move (GHOST \<in> dom (active_powerups (snake g)))
                         (g\<lparr>move_counter := 0,
                            snake := (snake g)\<lparr>active_powerups :=
                              (active_powerups (snake g))(SHIELD := None)\<rparr>\<rparr>) = Some (Inr fl)
                  else fl = Return (game_over (g\<lparr>move_counter := 0\<rparr>))))"
proof -
  let ?gh = "GHOST \<in> dom (active_powerups (snake g))"
  let ?g = "g\<lparr>move_counter := 0\<rparr>"
  from assms obtain fl1 where rm: "resolve_move ?gh ?g = Inr fl1"
    by (auto simp: move_tick_def Let_def split: sum.splits)
  with assms have rest: "(case fl1 of Return g \<Rightarrow> Some (Inr (Return g))
                          | Continue g \<Rightarrow> after_move ?gh g) = Some (Inr fl)"
    by (cases fl1) (auto simp: move_tick_def Let_def)
  from rm show ?thesis
  proof (cases rule: resolve_move_cases)
    case (moved s)
    with rest show ?thesis
      by (intro exI [of _ True] exI [of _ s]) simp
  next
    case shielded
    with rest show ?thesis
      by (intro exI [of _ False] exI [of _ "snake g"]) simp
  next
    case fatal
    with rest show ?thesis
      by (intro exI [of _ False] exI [of _ "snake g"]) auto
  qed
qed


subsection \<open>Well-formed states\<close>

lemma well_formed_game_over [simp]: "well_formed (game_over g) = well_formed g"
  by (simp add: well_formed_def)

lemma well_formed_after_move:
  assumes am: "after_move gh g = Some (Inr fl)" and b: "body (snake g) = h # t"
    and len: "length (powerups g) \<le> 2"
    and off: "\<forall>p \<in> set (powerups g). pos p \<notin> set t \<and> pos p \<notin> set (obstacles g)"
    and speed: "base_speed g = 8" "speed_multiplier g = 1"
    and fl: "fl = Return g' \<or> fl = Continue g'"
  shows "well_formed g'"
  using after_move_result [OF am b]
proof (elim disjE exE conjE)
  assume hit: "obstacle_hit gh g" and "fl = Return (game_over g)"
  with fl have g': "g' = game_over g"
    by simp
  from hit b have "h \<in> set (obstacles g)"
    by (simp add: obstacle_hit_def)
  with off have "\<forall>p \<in> set (powerups g). pos p \<noteq> h"
    by auto
  with off b len speed show ?thesis
    unfolding g' by (auto simp: well_formed_def)
next
  fix g2
  assume "fl = Continue g2"
    and body: "body (snake g2) = body (snake g)"
    and obs: "obstacles g2 =
               (if obstacle_hit gh g then filter (\<lambda>c. c \<noteq> h) (obstacles g) else obstacles g)"
    and pw: "powerups g2 = filter (\<lambda>p. pos p \<noteq> h) (powerups g)"
    and sp: "base_speed g2 = base_speed g" "speed_multiplier g2 = speed_multiplier g"
  with fl have g': "g' = g2"
    by simp
  have "length (powerups g2) \<le> 2"
    unfolding pw using len by (rule le_trans [OF length_filter_le])
  moreover have "set (obstacles g2) \<subseteq> set (obstacles g)"
    unfolding obs by auto
  ultimately show ?thesis
    using off b speed body pw sp unfolding g' well_formed_def by auto
qed

lemma well_formed_end_of_tick:
  assumes "well_formed g" and "end_of_tick g = Some (Inr g')"
  shows "well_formed g'"
proof -
  from end_of_tick_result [OF assms(2)] obtain gm where
    g': "g' = (if mode g = ''TIME_ATTACK'' \<and> time_remaining g - 1 \<le> 0
               then game_over gm else gm)"
    and sn: "snake gm = snake g"
    and sp: "base_speed gm = base_speed g" "speed_multiplier gm = speed_multiplier g"
    and pw: "if powerup_spawn_counter g + 1 \<ge> FPS * 10 \<and> length (powerups g) < 2
            then \<exists>p. powerups gm = powerups g @ [p] \<and> free_for_powerup g (pos p) \<and>
                     duration p = 300
            else powerups gm = powerups g"
    and ob: "obstacles gm = obstacles g \<or>
            (mode g = ''SURVIVAL'' \<and>
             (\<exists>c. obstacles gm = obstacles g @ [c] \<and> c \<notin> set (body (snake g)) \<and>
                   c \<noteq> food_pos g \<and> c \<notin> set (map pos (powerups gm)) \<and>
                   c \<notin> set (obstacles g)))"
    by blast
  from pw assms(1) have len: "length (powerups gm) \<le> 2"
    by (auto simp: well_formed_def split: if_splits)
  from pw assms(1) have p1: "\<forall>p \<in> set (powerups gm).
      pos p \<notin> set (body (snake g)) \<and> pos p \<notin> set (obstacles g)"
    by (auto simp: well_formed_def free_for_powerup_def split: if_splits)
  with ob have "\<forall>p \<in> set (powerups gm).
      pos p \<notin> set (body (snake gm)) \<and> pos p \<notin> set (obstacles gm)"
    unfolding sn by (auto simp: image_iff)
  with len sn sp assms(1) have "well_formed gm"
    by (simp add: well_formed_def)
  then show ?thesis
    unfolding g' by simp
qed

lemma well_formed_tick_start [simp]: "well_formed (tick_start g) = well_formed g"
  by (simp add: well_formed_def)

lemma move_new_body:
  "move gh s = Inr (True, s') \<Longrightarrow> body s' \<noteq> [] \<and> set (tl (body s')) \<subseteq> set (body s)"
  by (auto simp: move_def get_head_def Let_def split: list.splits prod.splits if_splits
      dest: in_set_butlastD)

lemma well_formed_update:
  assumes wf: "well_formed g" and up: "update g = Some (Inr g')"
  shows "well_formed g'"
proof (cases "mode g \<in> {''CLASSIC'', ''TIME_ATTACK'', ''SURVIVAL''}")
  case False
  with up wf show ?thesis
    by (simp add: update_inactive)
next
  case True
  let ?g = "tick_start g"
  let ?gh = "GHOST \<in> dom (active_powerups (snake ?g))"
  from update_result [OF up True] obtain fpm where
    cases: "if move_counter g + 1 \<ge> fpm
            then move_tick ?g = Some (Inr (Return g')) \<or>
                 (\<exists>g2. move_tick ?g = Some (Inr (Continue g2)) \<and>
                       end_of_tick g2 = Some (Inr g'))
            else end_of_tick ?g = Some (Inr g')"
    by blast
  have moved: "well_formed g2" if mt: "move_tick ?g = Some (Inr fl)"
    and fl: "fl = Return g2 \<or> fl = Continue g2" for fl g2
  proof -
    from move_tick_result [OF mt] obtain ok s where
      mv: "move ?gh (snake ?g) = Inr (ok, s)"
      and rest: "if ok
            then after_move ?gh (?g\<lparr>move_counter := 0, snake := s\<rparr>) = Some (Inr fl)
            else s = snake ?g \<and>
                 (if SHIELD \<in> dom (active_powerups (snake ?g))
                  then after_move ?gh
                         (?g\<lparr>move_counter := 0,
                            snake := (snake ?g)\<lparr>active_powerups :=
                              (active_powerups (snake ?g))(SHIELD := None)\<rparr>\<rparr>) = Some (Inr fl)
                  else fl = Return (game_over (?g\<lparr>move_counter := 0\<rparr>)))"
      by blast
    show ?thesis
    proof (cases ok)
      case True
      with rest have am: "after_move ?gh (?g\<lparr>move_counter := 0, snake := s\<rparr>) = Some (Inr fl)"
        by simp
      from mv True obtain nh t where bt: "body s = nh # t" "set t \<subseteq> set (body (snake g))"
        using move_new_body [of ?gh "snake ?g" s] by (cases "body s") auto
      with wf show ?thesis
        by (intro well_formed_after_move [OF am _ _ _ _ _ fl, of nh t])
          (auto simp: well_formed_def)
    next
      case False
      from wf obtain h t where b: "body (snake g) = h # t"
        by (cases "body (snake g)") (auto simp: well_formed_def)
      show ?thesis
      proof (cases "SHIELD \<in> dom (active_powerups (snake ?g))")
        case True
        with rest False have am: "after_move ?gh
                         (?g\<lparr>move_counter := 0,
                            snake := (snake ?g)\<lparr>active_powerups :=
                              (active_powerups (snake ?g))(SHIELD := None)\<rparr>\<rparr>) = Some (Inr fl)"
          by simp
        from wf b show ?thesis
          by (intro well_formed_after_move [OF am _ _ _ _ _ fl, of h t])
            (auto simp: well_formed_def)
      next
        case nos: False
        with rest False fl have "g2 = game_over (?g\<lparr>move_counter := 0\<rparr>)"
          by auto
        with wf show ?thesis
          by (simp add: well_formed_def)
      qed
    qed
  qed
  show ?thesis
  proof (cases "move_counter g + 1 \<ge> fpm")
    case False
    with cases wf show ?thesis
      by (auto intro: well_formed_end_of_tick [of ?g])
  next
    case True
    with cases consider "move_tick ?g = Some (Inr (Return g'))"
      | g2 where "move_tick ?g = Some (Inr (Continue g2))" "end_of_tick g2 = Some (Inr g')"
      by auto
    then show ?thesis
    proof cases
      case 1
      then show ?thesis
        by (rule moved) simp
    next
      case (2 g2)
      from 2(1) have "well_formed g2"
        by (rule moved) simp
      then show ?thesis
        using 2(2) by (rule well_formed_end_of_tick)
    qed
  qed
qed


lemma reset_game_result:
  assumes "reset_game g = Some g'"
  shows "\<exists>n p. g' = g\<lparr>snake := reset, score := 0, move_counter := 0, base_speed := 8,
                       speed_multiplier := 1, powerups := [], obstacles := [],
                       time_remaining := 60 * FPS, powerup_spawn_counter := 0,
                       rand_pos := n, food_pos := p\<rparr> \<and>
               p \<notin> set (body reset)"
proof -
  let ?g = "g\<lparr>snake := reset, score := 0, move_counter := 0, base_speed := 8,
               speed_multiplier := 1, powerups := [], obstacles := [],
               time_remaining := 60 * FPS, powerup_spawn_counter := 0\<rparr>"
  from assms obtain p g1 where sp: "spawn_food ?g = Some (p, g1)" and g': "g' = g1\<lparr>food_pos := p\<rparr>"
    by (auto simp: reset_game_def split: option.splits)
  from spawn_food_result [OF sp] obtain n where "p \<notin> set (body reset)" "g1 = ?g\<lparr>rand_pos := n\<rparr>"
    by auto
  with g' show ?thesis
    by (intro exI [of _ n] exI [of _ p]) simp
qed

lemma well_formed_reset_game: "reset_game g = Some g' \<Longrightarrow> well_formed g'"
  by (drule reset_game_result) (auto simp: well_formed_def reset_eq)

lemma set_direction_frame:
  "set_direction d s = Inr s' \<Longrightarrow>
     body s' = body s \<and> grow_pending s' = grow_pending s \<and>
     active_powerups s' = active_powerups s"
  by (auto simp: set_direction_def get_head_def split: list.splits prod.splits if_splits)

lemma well_formed_keydown:
  assumes "well_formed g" and "keydown k g = Some (Inr (running, g'))"
  shows "well_formed g'"
proof -
  have turn: "well_formed g2" if "turn d g = Some (Inr (r, g2))" for d r g2
    using that assms(1) set_direction_frame [of d "snake g"]
    by (auto simp: turn_def well_formed_def split: sum.splits)
  have new: "well_formed g2" if "new_game m g = Some (Inr (r, g2))" for m r g2
    using that by (auto simp: new_game_def split: option.splits dest: well_formed_reset_game)
  have again: "well_formed g2"
    if "reset_game g = Some g1" "g2 = g1\<lparr>mode := m\<rparr>" for g1 g2 m
    using that well_formed_reset_game [of g g1] by (simp add: well_formed_def)
  from assms show ?thesis
    unfolding keydown_def
    by (auto simp: well_formed_def split: if_splits option.splits
        dest: turn new again)
qed

lemma well_formed_handle_events:
  assumes "well_formed g" and "handle_events es g = Some (Inr (running, g'))"
  shows "well_formed g'"
  using assms
proof (induction es g rule: handle_events.induct)
  case (4 k es g)
  from "4.prems"(2) obtain r g1 where kd: "keydown k g = Some (Inr (r, g1))"
    by (auto split: option.splits sum.splits)
  from well_formed_keydown [OF "4.prems"(1) kd] have wf1: "well_formed g1" .
  show ?case
  proof (cases r)
    case True
    with "4.prems"(2) kd have "handle_events es g1 = Some (Inr (running, g'))"
      by simp
    with "4.IH" kd True wf1 show ?thesis
      by (auto simp del: handle_events.simps)
  next
    case False
    with "4.prems"(2) kd wf1 show ?thesis
      by simp
  qed
qed simp_all

lemma well_formed_Game_init: "Game_init draws file = Some g \<Longrightarrow> well_formed g"
  by (auto simp: Game_init_def well_formed_def split: option.splits
      dest!: well_formed_reset_game)

lemma reachable_well_formed: "reachable g \<Longrightarrow> well_formed g"
proof (induction rule: reachable.induct)
  case (start draws tbl g)
  then show ?case
    by (rule well_formed_Game_init)
next
  case (events g es running g')
  then show ?case
    by (auto intro: well_formed_handle_events)
next
  case (tick g g')
  then show ?case
    by (auto intro: well_formed_update)
qed

section \<open>Food, high scores\<close>

text \<open>
  C7. Whenever \<open>spawn_food\<close> returns, from any state, the cell it returns is no cell of the
  snake body and no obstacle cell of the state right after the call (the call changes
  neither), and it lies inside the grid. The loop has no bound: it returns as soon as some
  attempt draws a free cell, and the second half says so.
\<close>

theorem spawn_food_free:
  "(\<forall>p g'. spawn_food g = Some (p, g') \<longrightarrow>
      p \<notin> set (body (snake g')) \<and> p \<notin> set (obstacles g') \<and>
      body (snake g') = body (snake g) \<and> obstacles g' = obstacles g \<and>
      0 \<le> fst p \<and> fst p < GRID_WIDTH \<and> 0 \<le> snd p \<and> snd p < GRID_HEIGHT) \<and>
   ((\<exists>k. candidate g k \<notin> set (body (snake g)) \<and> candidate g k \<notin> set (obstacles g)) \<longrightarrow>
      (\<exists>p g'. spawn_food g = Some (p, g')))"
proof (intro conjI allI impI)
  fix p g'
  assume "spawn_food g = Some (p, g')"
  from spawn_food_result [OF this] obtain n where
    "p \<notin> set (body (snake g))" "p \<notin> set (obstacles g)" "g' = g\<lparr>rand_pos := n\<rparr>"
    "0 \<le> fst p" "fst p < GRID_WIDTH" "0 \<le> snd p" "snd p < GRID_HEIGHT"
    by blast
  then show "p \<notin> set (body (snake g'))" "p \<notin> set (obstacles g')"
    "body (snake g') = body (snake g)" "obstacles g' = obstacles g"
    "0 \<le> fst p" "fst p < GRID_WIDTH" "0 \<le> snd p" "snd p < GRID_HEIGHT"
    by simp_all
next
  assume "\<exists>k. candidate g k \<notin> set (body (snake g)) \<and> candidate g k \<notin> set (obstacles g)"
  then obtain k where
    "candidate g k \<notin> set (body (snake g))" "candidate g k \<notin> set (obstacles g)"
    by blast
  then show "\<exists>p g'. spawn_food g = Some (p, g')"
    by (rule spawn_food_returns)
qed

theorem spawn_food_free_witness:
  "spawn_food (session ''CLASSIC'' draws_head_then_7) =
     Some ((7, 7), (session ''CLASSIC'' draws_head_then_7)\<lparr>rand_pos := 4\<rparr>) \<and>
   (7, 7) \<notin> set (body (snake (session ''CLASSIC'' draws_head_then_7))) \<and>
   candidate (session ''CLASSIC'' draws_head_then_7) 0 = (20, 15) \<and>
   candidate (session ''CLASSIC'' draws_head_then_7) 1 = (7, 7)"
proof -
  let ?g = "session ''CLASSIC'' draws_head_then_7"
  have c0: "candidate ?g 0 = (20, 15)" and c1: "candidate ?g 1 = (7, 7)"
    by (simp_all add: candidate_def session_def draws_head_then_7_def grid_consts)
  have "candidate ?g 1 \<notin> set (body (snake ?g)) \<and> candidate ?g 1 \<notin> set (obstacles ?g)"
    unfolding c1 by (simp add: session_def reset_eq)
  with spawn_food_free [of ?g] obtain p g' where sp: "spawn_food ?g = Some (p, g')"
    by blast
  have ev: "spawn_food ?g = Some ((7, 7), ?g\<lparr>rand_pos := 4\<rparr>)"
    apply (subst spawn_food.simps)
    apply (simp add: session_def randint_def reset_eq grid_consts draws_head_then_7_def)
    apply (subst spawn_food.simps)
    apply (simp add: session_def randint_def reset_eq grid_consts draws_head_then_7_def)
    done
  with spawn_food_free [of ?g] have "(7, 7) \<notin> set (body (snake (?g\<lparr>rand_pos := 4\<rparr>)))"
    by blast
  with ev c0 c1 show ?thesis
    by simp
qed

lemma move_tick_session:
  assumes "move_tick g = Some (Inr fl)"
  shows "(\<exists>g2. fl = Continue g2 \<and> mode g2 = mode g \<and> last_mode g2 = last_mode g \<and>
            high_scores g2 = high_scores g \<and> saved g2 = saved g) \<or>
         (\<exists>gm. fl = Return (game_over gm) \<and> mode gm = mode g \<and>
            high_scores gm = high_scores g \<and> saved gm = saved g)"
proof -
  let ?gh = "GHOST \<in> dom (active_powerups (snake g))"
  have am: "(\<exists>g2. fl = Continue g2 \<and> mode g2 = mode gx \<and> last_mode g2 = last_mode gx \<and>
            high_scores g2 = high_scores gx \<and> saved g2 = saved gx) \<or>
         (\<exists>gm. fl = Return (game_over gm) \<and> mode gm = mode gx \<and>
            high_scores gm = high_scores gx \<and> saved gm = saved gx)"
    if "after_move ?gh gx = Some (Inr fl)" "body (snake gx) \<noteq> []" for gx
  proof -
    from that(2) obtain h t where "body (snake gx) = h # t"
      by (cases "body (snake gx)") auto
    from after_move_result [OF that(1) this] show ?thesis
      by (elim disjE exE conjE) auto
  qed
  from move_tick_result [OF assms] obtain ok s where
    mv: "move ?gh (snake g) = Inr (ok, s)"
    and rest: "if ok
          then after_move ?gh (g\<lparr>move_counter := 0, snake := s\<rparr>) = Some (Inr fl)
          else s = snake g \<and>
               (if SHIELD \<in> dom (active_powerups (snake g))
                then after_move ?gh
                       (g\<lparr>move_counter := 0,
                          snake := (snake g)\<lparr>active_powerups :=
                            (active_powerups (snake g))(SHIELD := None)\<rparr>\<rparr>) = Some (Inr fl)
                else fl = Return (game_over (g\<lparr>move_counter := 0\<rparr>)))"
    by blast
  from mv have ne: "body s \<noteq> []" "body (snake g) \<noteq> []"
    by (auto dest: move_body)
  show ?thesis
  proof (cases ok)
    case True
    with rest ne am [of "g\<lparr>move_counter := 0, snake := s\<rparr>"] show ?thesis
      by simp
  next
    case False
    show ?thesis
    proof (cases "SHIELD \<in> dom (active_powerups (snake g))")
      case True
      with rest False ne
        am [of "g\<lparr>move_counter := 0, snake := (snake g)\<lparr>active_powerups :=
                            (active_powerups (snake g))(SHIELD := None)\<rparr>\<rparr>"]
      show ?thesis
        by simp
    next
      case nos: False
      with rest False have "fl = Return (game_over (g\<lparr>move_counter := 0\<rparr>))"
        by simp
      then show ?thesis
        by (intro disjI2 exI [of _ "g\<lparr>move_counter := 0\<rparr>"]) simp
    qed
  qed
qed


lemma update_session:
  assumes "update g = Some (Inr g')"
  shows "(mode g' = mode g \<and> last_mode g' = last_mode g \<and> high_scores g' = high_scores g \<and>
          saved g' = saved g) \<or>
         (mode g \<in> {''CLASSIC'', ''TIME_ATTACK'', ''SURVIVAL''} \<and>
          (\<exists>gm. g' = game_over gm \<and> mode gm = mode g \<and> high_scores gm = high_scores g \<and>
                saved gm = saved g))"
proof (cases "mode g \<in> {''CLASSIC'', ''TIME_ATTACK'', ''SURVIVAL''}")
  case False
  with assms show ?thesis
    by (simp add: update_inactive)
next
  case True
  let ?g = "tick_start g"
  have eot: "(mode g' = mode gx \<and> last_mode g' = last_mode gx \<and>
              high_scores g' = high_scores gx \<and> saved g' = saved gx) \<or>
             (\<exists>gm. g' = game_over gm \<and> mode gm = mode gx \<and> high_scores gm = high_scores gx \<and>
                saved gm = saved gx)"
    if "end_of_tick gx = Some (Inr g')" for gx
    using end_of_tick_result [OF that] by (elim exE conjE) (auto split: if_splits)
  from update_result [OF assms True] obtain fpm where
    cases: "if move_counter g + 1 \<ge> fpm
            then move_tick ?g = Some (Inr (Return g')) \<or>
                 (\<exists>g2. move_tick ?g = Some (Inr (Continue g2)) \<and>
                       end_of_tick g2 = Some (Inr g'))
            else end_of_tick ?g = Some (Inr g')"
    by blast
  show ?thesis
  proof (cases "move_counter g + 1 \<ge> fpm")
    case False
    with cases eot [of ?g] True show ?thesis
      by auto
  next
    case due: True
    with cases consider "move_tick ?g = Some (Inr (Return g'))"
      | g2 where "move_tick ?g = Some (Inr (Continue g2))" "end_of_tick g2 = Some (Inr g')"
      by auto
    then show ?thesis
    proof cases
      case 1
      from move_tick_session [OF 1] True show ?thesis
        by auto
    next
      case (2 g2)
      from move_tick_session [OF 2(1)] have "mode g2 = mode g \<and> last_mode g2 = last_mode g \<and>
            high_scores g2 = high_scores g \<and> saved g2 = saved g"
        by auto
      with eot [OF 2(2)] True show ?thesis
        by auto
    qed
  qed
qed

text \<open>
  C8. \<open>game_over\<close> stores the score under the lower-case name of the ending mode and hands
  the table to \<open>save_high_scores\<close> if and only if the score is strictly above the stored
  best (0 when the mode has no entry); otherwise the table and the saved tables stay as they
  were. Every tick that ends in GameOver does exactly this with the score at the end of
  the tick, and a tick that does not end in GameOver changes neither the table nor what was
  saved.
\<close>

theorem game_over_high_score:
  "mode (game_over g) = ''GAME_OVER'' \<and> last_mode (game_over g) = Some (mode g) \<and>
   score (game_over g) = score g \<and>
   (if score g > (case high_scores g (lower (mode g)) of None \<Rightarrow> 0 | Some best \<Rightarrow> best)
    then high_scores (game_over g) = (high_scores g)(lower (mode g) \<mapsto> score g) \<and>
         saved (game_over g) = high_scores (game_over g) # saved g
    else high_scores (game_over g) = high_scores g \<and> saved (game_over g) = saved g) \<and>
   (\<forall>g'. update g = Some (Inr g') \<longrightarrow>
      (mode g' = mode g \<and> high_scores g' = high_scores g \<and> saved g' = saved g) \<or>
      (mode g \<in> {''CLASSIC'', ''TIME_ATTACK'', ''SURVIVAL''} \<and> mode g' = ''GAME_OVER'' \<and>
       last_mode g' = Some (mode g) \<and>
       (if score g' > (case high_scores g (lower (mode g)) of None \<Rightarrow> 0 | Some best \<Rightarrow> best)
        then high_scores g' = (high_scores g)(lower (mode g) \<mapsto> score g') \<and>
             saved g' = high_scores g' # saved g
        else high_scores g' = high_scores g \<and> saved g' = saved g)))"
proof -
  have go: "mode (game_over g) = ''GAME_OVER'' \<and> last_mode (game_over g) = Some (mode g) \<and>
   score (game_over g) = score g \<and>
   (if score g > (case high_scores g (lower (mode g)) of None \<Rightarrow> 0 | Some best \<Rightarrow> best)
    then high_scores (game_over g) = (high_scores g)(lower (mode g) \<mapsto> score g) \<and>
         saved (game_over g) = high_scores (game_over g) # saved g
    else high_scores (game_over g) = high_scores g \<and> saved (game_over g) = saved g)" for g
    by (simp add: game_over_def save_high_scores_def Let_def)
  have "(mode g' = mode g \<and> high_scores g' = high_scores g \<and> saved g' = saved g) \<or>
      (mode g \<in> {''CLASSIC'', ''TIME_ATTACK'', ''SURVIVAL''} \<and> mode g' = ''GAME_OVER'' \<and>
       last_mode g' = Some (mode g) \<and>
       (if score g' > (case high_scores g (lower (mode g)) of None \<Rightarrow> 0 | Some best \<Rightarrow> best)
        then high_scores g' = (high_scores g)(lower (mode g) \<mapsto> score g') \<and>
             saved g' = high_scores g' # saved g
        else high_scores g' = high_scores g \<and> saved g' = saved g))"
    if up: "update g = Some (Inr g')" for g'
    using update_session [OF up]
  proof (elim disjE exE conjE)
    fix gm
    assume "mode g \<in> {''CLASSIC'', ''TIME_ATTACK'', ''SURVIVAL''}" "g' = game_over gm"
      "mode gm = mode g" "high_scores gm = high_scores g" "saved gm = saved g"
    with go [of gm] show ?thesis
      by simp
  qed simp
  with go [of g] show ?thesis
    by blast
qed

lemma floor_rat_numeral [simp]:
  "\<lfloor>numeral a / numeral b :: rat\<rfloor> = numeral a div numeral b"
  using floor_divide_of_int_eq [of "numeral a" "numeral b", where ?'a = rat] by simp

lemmas tick_defs = update_def update_timers_def frames_per_move_def current_speed_def py_int_def
  move_tick_def resolve_move_def move_def get_head_def after_move_def check_obstacle_def
  check_food_def end_of_tick_def periodic_powerup_def survival_obstacles_def time_attack_def
  spawn_powerup_def Let_def FPS_def grid_consts domIff

theorem game_over_high_score_witness:
  "high_scores (game_over last_tick) ''time_attack'' = Some 50 \<and>
   saved (game_over last_tick) = [high_scores (game_over last_tick)] \<and>
   high_scores (game_over (last_tick\<lparr>score := 0\<rparr>)) = high_scores last_tick \<and>
   saved (game_over (last_tick\<lparr>score := 0\<rparr>)) = [] \<and>
   (\<exists>g'. update last_tick = Some (Inr g') \<and> mode g' = ''GAME_OVER'' \<and>
      high_scores g' ''time_attack'' = Some 50 \<and> saved g' = [high_scores g']) \<and>
   (\<exists>g'. update (last_tick\<lparr>time_remaining := 9\<rparr>) = Some (Inr g') \<and>
      mode g' = ''TIME_ATTACK'' \<and> high_scores g' = high_scores last_tick \<and> saved g' = [])"
proof -
  have hs: "high_scores last_tick (lower (mode last_tick)) = Some 0"
    "score last_tick = 50" "saved last_tick = []"
    "high_scores (last_tick\<lparr>score := 0\<rparr>) (lower (mode (last_tick\<lparr>score := 0\<rparr>))) = Some 0"
    "lower (mode last_tick) = ''time_attack''"
    by (simp_all add: last_tick_def session_def load_high_scores_def lower_modes)
  obtain g1 where u1: "update last_tick = Some (Inr g1)" and m1: "mode g1 = ''GAME_OVER''"
    and s1: "score g1 = 50"
    by (simp add: last_tick_def session_def tick_defs reset_eq)
  obtain g2 where u2: "update (last_tick\<lparr>time_remaining := 9\<rparr>) = Some (Inr g2)"
    and m2: "mode g2 = ''TIME_ATTACK''"
    by (simp add: last_tick_def session_def tick_defs reset_eq)
  from game_over_high_score [of last_tick] hs
  have "high_scores (game_over last_tick) ''time_attack'' = Some 50 \<and>
        saved (game_over last_tick) = [high_scores (game_over last_tick)]"
    by simp
  moreover from game_over_high_score [of "last_tick\<lparr>score := 0\<rparr>"] hs
  have "high_scores (game_over (last_tick\<lparr>score := 0\<rparr>)) = high_scores last_tick \<and>
        saved (game_over (last_tick\<lparr>score := 0\<rparr>)) = []"
    by simp
  moreover from game_over_high_score [of last_tick] u1 m1 s1 hs
  have "high_scores g1 ''time_attack'' = Some 50 \<and> saved g1 = [high_scores g1]"
    by (auto simp: last_tick_def session_def)
  moreover from game_over_high_score [of "last_tick\<lparr>time_remaining := 9\<rparr>"] u2 m2
  have "high_scores g2 = high_scores last_tick \<and> saved g2 = []"
    by (auto simp: last_tick_def session_def)
  ultimately show ?thesis
    using u1 m1 u2 m2 by simp
qed

section \<open>Power-ups on the field\<close>

lemma move_tick_powerups:
  assumes "move_tick g = Some (Inr fl)"
  shows "\<exists>g2. (fl = Return g2 \<or> fl = Continue g2) \<and> set (powerups g2) \<subseteq> set (powerups g) \<and>
           length (powerups g2) \<le> length (powerups g) \<and>
           powerup_spawn_counter g2 = powerup_spawn_counter g"
proof -
  let ?gh = "GHOST \<in> dom (active_powerups (snake g))"
  have am: "\<exists>g2. (fl = Return g2 \<or> fl = Continue g2) \<and> set (powerups g2) \<subseteq> set (powerups gx) \<and>
           length (powerups g2) \<le> length (powerups gx) \<and>
           powerup_spawn_counter g2 = powerup_spawn_counter gx"
    if "after_move ?gh gx = Some (Inr fl)" "body (snake gx) \<noteq> []" for gx
  proof -
    from that(2) obtain h t where "body (snake gx) = h # t"
      by (cases "body (snake gx)") auto
    from after_move_result [OF that(1) this] show ?thesis
      by (elim disjE exE conjE) auto
  qed
  from move_tick_result [OF assms] obtain ok s where
    mv: "move ?gh (snake g) = Inr (ok, s)"
    and rest: "if ok
          then after_move ?gh (g\<lparr>move_counter := 0, snake := s\<rparr>) = Some (Inr fl)
          else s = snake g \<and>
               (if SHIELD \<in> dom (active_powerups (snake g))
                then after_move ?gh
                       (g\<lparr>move_counter := 0,
                          snake := (snake g)\<lparr>active_powerups :=
                            (active_powerups (snake g))(SHIELD := None)\<rparr>\<rparr>) = Some (Inr fl)
                else fl = Return (game_over (g\<lparr>move_counter := 0\<rparr>)))"
    by blast
  from mv have ne: "body s \<noteq> []" "body (snake g) \<noteq> []"
    by (auto dest: move_body)
  show ?thesis
  proof (cases ok)
    case True
    with rest ne am [of "g\<lparr>move_counter := 0, snake := s\<rparr>"] show ?thesis
      by simp
  next
    case False
    show ?thesis
    proof (cases "SHIELD \<in> dom (active_powerups (snake g))")
      case True
      with rest False ne
        am [of "g\<lparr>move_counter := 0, snake := (snake g)\<lparr>active_powerups :=
                            (active_powerups (snake g))(SHIELD := None)\<rparr>\<rparr>"]
      show ?thesis
        by simp
    next
      case nos: False
      with rest False have "fl = Return (game_over (g\<lparr>move_counter := 0\<rparr>))"
        by simp
      then show ?thesis
        by (intro exI [of _ "game_over (g\<lparr>move_counter := 0\<rparr>)"]) simp
    qed
  qed
qed

lemma end_of_tick_powerups:
  assumes "end_of_tick g = Some (Inr g')"
  shows "powerup_spawn_counter g' =
           (if FPS * 10 \<le> powerup_spawn_counter g + 1 then 0 else powerup_spawn_counter g + 1) \<and>
         (if FPS * 10 \<le> powerup_spawn_counter g + 1 \<and> length (powerups g) < 2
          then \<exists>p. powerups g' = powerups g @ [p]
          else powerups g' = powerups g)"
  using end_of_tick_result [OF assms]
  by (elim exE conjE) (auto split: if_splits)

lemma update_powerups:
  assumes "update g = Some (Inr g')"
  shows "\<exists>kept. set kept \<subseteq> set (powerups g) \<and> length kept \<le> length (powerups g) \<and>
           (powerups g' = kept \<or>
            (FPS * 10 \<le> powerup_spawn_counter g + 1 \<and> length kept < 2 \<and>
             powerup_spawn_counter g' = 0 \<and> (\<exists>p. powerups g' = kept @ [p])))"
proof (cases "mode g \<in> {''CLASSIC'', ''TIME_ATTACK'', ''SURVIVAL''}")
  case False
  with assms have "g' = g"
    by (simp add: update_inactive)
  then show ?thesis
    by (intro exI [of _ "powerups g"]) simp
next
  case True
  let ?g = "tick_start g"
  have eot: ?thesis
    if "end_of_tick gx = Some (Inr g')" "set (powerups gx) \<subseteq> set (powerups g)"
      "length (powerups gx) \<le> length (powerups g)"
      "powerup_spawn_counter gx = powerup_spawn_counter g" for gx
    using end_of_tick_powerups [OF that(1)] that(2-4)
    by (intro exI [of _ "powerups gx"]) (auto split: if_splits)
  from update_result [OF assms True] obtain fpm where
    cases: "if move_counter g + 1 \<ge> fpm
            then move_tick ?g = Some (Inr (Return g')) \<or>
                 (\<exists>g2. move_tick ?g = Some (Inr (Continue g2)) \<and>
                       end_of_tick g2 = Some (Inr g'))
            else end_of_tick ?g = Some (Inr g')"
    by blast
  show ?thesis
  proof (cases "move_counter g + 1 \<ge> fpm")
    case False
    with cases have "end_of_tick ?g = Some (Inr g')"
      by simp
    then show ?thesis
      by (rule eot) simp_all
  next
    case due: True
    with cases consider "move_tick ?g = Some (Inr (Return g'))"
      | g2 where "move_tick ?g = Some (Inr (Continue g2))" "end_of_tick g2 = Some (Inr g')"
      by auto
    then show ?thesis
    proof cases
      case 1
      from move_tick_powerups [OF 1] show ?thesis
        by (intro exI [of _ "powerups g'"]) auto
    next
      case (2 g2)
      from move_tick_powerups [OF 2(1)] have "set (powerups g2) \<subseteq> set (powerups g)"
        "length (powerups g2) \<le> length (powerups g)"
        "powerup_spawn_counter g2 = powerup_spawn_counter g"
        by auto
      with 2(2) show ?thesis
        by (rule eot)
    qed
  qed
qed

text \<open>
  C9. The capacity test sits in \<open>spawn_powerup\<close> and the timer test in the tick, one after
  the other: \<open>spawn_powerup\<close> appends one power-up when fewer than two are on the field and
  does nothing otherwise; the periodic step calls it exactly when the counter reaches
  \<open>FPS * 10\<close> frames, and resets the counter then, whether or not a power-up is added. So
  over a tick the field is what was kept of the old field plus at most one new power-up,
  added only if the counter fired on that tick and fewer than two were on the field at
  that moment. In every reachable state at most two power-ups are on the field.
\<close>

theorem powerup_gates:
  "(\<forall>g'. spawn_powerup g = Some g' \<longrightarrow>
      (if length (powerups g) < 2 then \<exists>p. powerups g' = powerups g @ [p] else g' = g)) \<and>
   (\<forall>g'. periodic_powerup g = Some g' \<longrightarrow>
      powerup_spawn_counter g' =
        (if FPS * 10 \<le> powerup_spawn_counter g + 1 then 0 else powerup_spawn_counter g + 1) \<and>
      (if FPS * 10 \<le> powerup_spawn_counter g + 1 \<and> length (powerups g) < 2
       then \<exists>p. powerups g' = powerups g @ [p]
       else powerups g' = powerups g)) \<and>
   (\<forall>g'. update g = Some (Inr g') \<longrightarrow>
      (\<exists>kept. set kept \<subseteq> set (powerups g) \<and> length kept \<le> length (powerups g) \<and>
         (powerups g' = kept \<or>
          (FPS * 10 \<le> powerup_spawn_counter g + 1 \<and> length kept < 2 \<and>
           powerup_spawn_counter g' = 0 \<and> (\<exists>p. powerups g' = kept @ [p]))))) \<and>
   (reachable g \<longrightarrow> length (powerups g) \<le> 2)"
proof (intro conjI allI impI)
  fix g'
  assume "spawn_powerup g = Some g'"
  from spawn_powerup_result [OF this]
  show "if length (powerups g) < 2 then \<exists>p. powerups g' = powerups g @ [p] else g' = g"
    by auto
next
  fix g'
  assume pp: "periodic_powerup g = Some g'"
  from periodic_powerup_result [OF pp]
  show "powerup_spawn_counter g' =
        (if FPS * 10 \<le> powerup_spawn_counter g + 1 then 0 else powerup_spawn_counter g + 1)"
    by (elim disjE exE conjE) simp_all
  from periodic_powerup_result [OF pp]
  show "if FPS * 10 \<le> powerup_spawn_counter g + 1 \<and> length (powerups g) < 2
        then \<exists>p. powerups g' = powerups g @ [p]
        else powerups g' = powerups g"
    by (elim disjE exE conjE) simp_all
next
  fix g'
  assume "update g = Some (Inr g')"
  then show "\<exists>kept. set kept \<subseteq> set (powerups g) \<and> length kept \<le> length (powerups g) \<and>
         (powerups g' = kept \<or>
          (FPS * 10 \<le> powerup_spawn_counter g + 1 \<and> length kept < 2 \<and>
           powerup_spawn_counter g' = 0 \<and> (\<exists>p. powerups g' = kept @ [p])))"
    by (rule update_powerups)
next
  assume "reachable g"
  then have "well_formed g"
    by (rule reachable_well_formed)
  then show "length (powerups g) \<le> 2"
    by (simp add: well_formed_def)
qed

lemma spawn_food_first:
  assumes "candidate g 0 \<notin> set (body (snake g))" "candidate g 0 \<notin> set (obstacles g)"
  shows "spawn_food g = Some (candidate g 0, g\<lparr>rand_pos := rand_pos g + 2\<rparr>)"
  using assms
  by (subst spawn_food.simps) (simp add: randint_def candidate_def grid_consts)

lemma spawn_powerup_loop_first:
  assumes "free_for_powerup g (candidate g 0)"
  shows "spawn_powerup_loop g =
           Some (g\<lparr>rand_pos := rand_pos g + 3,
                   powerups := powerups g @
                     [\<lparr>ptype = [SPEED_BOOST, SHIELD, MULTIPLIER, GHOST] !
                                (rand g (rand_pos g + 2) mod 4),
                       pos = candidate g 0, duration = 300\<rparr>]\<rparr>)"
  using assms
  by (subst spawn_powerup_loop.simps)
    (simp add: randint_def choice_def candidate_def free_for_powerup_def grid_consts)

lemma spawn_obstacle_first:
  assumes "free_for_powerup g (candidate g 0)"
  shows "spawn_obstacle g =
           Some (g\<lparr>rand_pos := rand_pos g + 2, obstacles := obstacles g @ [candidate g 0]\<rparr>)"
  using assms
  by (subst spawn_obstacle.simps)
    (simp add: randint_def candidate_def free_for_powerup_def grid_consts)

lemmas spawn_first = spawn_food_first spawn_powerup_loop_first spawn_obstacle_first
  candidate_def free_for_powerup_def

theorem powerup_gates_witness:
  "(\<exists>g'. update spawn_due = Some (Inr g') \<and>
      powerups g' = [\<lparr>ptype = GHOST, pos = (7, 7), duration = 300\<rparr>] \<and>
      powerup_spawn_counter g' = 0) \<and>
   (\<exists>g'. update field_full = Some (Inr g') \<and> powerups g' = powerups field_full \<and>
      powerup_spawn_counter g' = 0) \<and>
   (\<exists>g'. update (session ''CLASSIC'' draws7) = Some (Inr g') \<and> powerups g' = [] \<and>
      powerup_spawn_counter g' = 1) \<and>
   (\<exists>g. Game_init draws7 None = Some g \<and> reachable g \<and> length (powerups g) \<le> 2)"
proof -
  have sf: "spawn_food
     \<lparr>mode = ''MENU'', last_mode = None, snake = reset, score = 0, move_counter = 0,
      base_speed = 8, speed_multiplier = 1, powerups = [], obstacles = [],
      time_remaining = 60 * FPS, powerup_spawn_counter = 0, food_pos = (0, 0),
      high_scores = Map.empty, saved = [], rand = draws7, rand_pos = 0\<rparr> =
     Some ((7, 7),
     \<lparr>mode = ''MENU'', last_mode = None, snake = reset, score = 0, move_counter = 0,
      base_speed = 8, speed_multiplier = 1, powerups = [], obstacles = [],
      time_remaining = 60 * FPS, powerup_spawn_counter = 0, food_pos = (0, 0),
      high_scores = Map.empty, saved = [], rand = draws7, rand_pos = 2\<rparr>)"
    by (simp add: spawn_first reset_eq grid_consts draws7_def)
  obtain g0 where g0: "Game_init draws7 None = Some g0"
    by (simp add: Game_init_def reset_game_def sf)
  then have r0: "reachable g0"
    by (rule reachable.start)
  obtain g1 where u1: "update spawn_due = Some (Inr g1)"
    and p1: "powerups g1 = [\<lparr>ptype = GHOST, pos = (7, 7), duration = 300\<rparr>]"
    by (simp add: tick_defs spawn_first spawn_due_def session_def reset_eq draws7_def)
  obtain g2 where u2: "update field_full = Some (Inr g2)"
    and p2: "powerups g2 = powerups field_full" and c2: "powerup_spawn_counter g2 = 0"
    by (simp add: tick_defs field_full_def spawn_due_def session_def reset_eq)
  obtain g3 where u3: "update (session ''CLASSIC'' draws7) = Some (Inr g3)"
    and p3: "powerups g3 = []" and c3: "powerup_spawn_counter g3 = 1"
    by (simp add: tick_defs session_def reset_eq)
  have "powerups spawn_due = []"
    by (simp add: spawn_due_def session_def)
  with powerup_gates [of spawn_due] u1 p1 have c1: "powerup_spawn_counter g1 = 0"
    by auto
  from powerup_gates [of g0] r0 have "length (powerups g0) \<le> 2"
    by blast
  with g0 r0 u1 p1 c1 u2 p2 c2 u3 p3 c3 show ?thesis
    by simp
qed

section \<open>The cadence of the moves\<close>

lemma update_cases:
  assumes "update g = Some (Inr g')"
    and "mode g \<in> {''CLASSIC'', ''TIME_ATTACK'', ''SURVIVAL''}"
  obtains
    (idle) fpm where "frames_per_move (update_timers g) = Inr fpm" "move_counter g + 1 < fpm"
      "end_of_tick (tick_start g) = Some (Inr g')"
  | (returned) fpm where "frames_per_move (update_timers g) = Inr fpm"
      "fpm \<le> move_counter g + 1" "move_tick (tick_start g) = Some (Inr (Return g'))"
  | (continued) fpm g2 where "frames_per_move (update_timers g) = Inr fpm"
      "fpm \<le> move_counter g + 1" "move_tick (tick_start g) = Some (Inr (Continue g2))"
      "end_of_tick g2 = Some (Inr g')"
proof -
  from update_result [OF assms] obtain fpm where
    f: "frames_per_move (update_timers g) = Inr fpm"
    and c: "if move_counter g + 1 \<ge> fpm
            then move_tick (tick_start g) = Some (Inr (Return g')) \<or>
                 (\<exists>g2. move_tick (tick_start g) = Some (Inr (Continue g2)) \<and>
                       end_of_tick g2 = Some (Inr g'))
            else end_of_tick (tick_start g) = Some (Inr g')"
    by blast
  show ?thesis
  proof (cases "fpm \<le> move_counter g + 1")
    case False
    with c f idle [of fpm] show ?thesis
      by simp
  next
    case True
    with c f returned [of fpm] continued [of fpm] show ?thesis
      by auto
  qed
qed

lemma move_tick_cases:
  assumes "move_tick g = Some (Inr fl)"
  obtains
    (fatal) "move (GHOST \<in> dom (active_powerups (snake g))) (snake g) = Inr (False, snake g)"
      "SHIELD \<notin> dom (active_powerups (snake g))"
      "fl = Return (game_over (g\<lparr>move_counter := 0\<rparr>))"
  | (shielded) h t where
      "move (GHOST \<in> dom (active_powerups (snake g))) (snake g) = Inr (False, snake g)"
      "SHIELD \<in> dom (active_powerups (snake g))" "body (snake g) = h # t"
      "after_move (GHOST \<in> dom (active_powerups (snake g)))
         (g\<lparr>move_counter := 0,
            snake := (snake g)\<lparr>active_powerups :=
              (active_powerups (snake g))(SHIELD := None)\<rparr>\<rparr>) = Some (Inr fl)"
  | (moved) s h t where
      "move (GHOST \<in> dom (active_powerups (snake g))) (snake g) = Inr (True, s)"
      "body s = h # t"
      "after_move (GHOST \<in> dom (active_powerups (snake g)))
         (g\<lparr>move_counter := 0, snake := s\<rparr>) = Some (Inr fl)"
proof -
  let ?gh = "GHOST \<in> dom (active_powerups (snake g))"
  from move_tick_result [OF assms] obtain ok s where
    mv: "move ?gh (snake g) = Inr (ok, s)"
    and rest: "if ok
          then after_move ?gh (g\<lparr>move_counter := 0, snake := s\<rparr>) = Some (Inr fl)
          else s = snake g \<and>
               (if SHIELD \<in> dom (active_powerups (snake g))
                then after_move ?gh
                       (g\<lparr>move_counter := 0,
                          snake := (snake g)\<lparr>active_powerups :=
                            (active_powerups (snake g))(SHIELD := None)\<rparr>\<rparr>) = Some (Inr fl)
                else fl = Return (game_over (g\<lparr>move_counter := 0\<rparr>)))"
    by blast
  from mv obtain h t h' t' where b: "body (snake g) = h # t" "body s = h' # t'"
    by (cases "body (snake g)"; cases "body s") (auto dest: move_body)
  show ?thesis
  proof (cases ok)
    case True
    with mv rest b moved [of s h' t'] show ?thesis
      by simp
  next
    case False
    with rest have s: "s = snake g"
      by simp
    show ?thesis
    proof (cases "SHIELD \<in> dom (active_powerups (snake g))")
      case True
      with mv rest False s b shielded [of h t] show ?thesis
        by simp
    next
      case nos: False
      with mv rest False s fatal show ?thesis
        by simp
    qed
  qed
qed

lemma move_tick_snake:
  assumes mt: "move_tick g = Some (Inr fl)" and fl: "fl = Return g2 \<or> fl = Continue g2"
  shows "\<exists>ok s. move (GHOST \<in> dom (active_powerups (snake g))) (snake g) = Inr (ok, s) \<and>
           body (snake g2) = body s \<and> direction (snake g2) = direction (snake g) \<and>
           move_counter g2 = 0"
  using mt
proof (cases rule: move_tick_cases)
  case fatal
  with fl show ?thesis
    by auto
next
  case (shielded h t)
  from after_move_result [OF shielded(4)] shielded(3) fl
  have "body (snake g2) = body (snake g) \<and> direction (snake g2) = direction (snake g) \<and>
        move_counter g2 = 0"
    by auto
  with shielded(1) show ?thesis
    by auto
next
  case (moved s h t)
  from after_move_result [OF moved(3)] moved(2) fl
  have "body (snake g2) = body s \<and> direction (snake g2) = direction s \<and> move_counter g2 = 0"
    by auto
  with moved(1) move_frame [OF moved(1)] show ?thesis
    by auto
qed

lemma end_of_tick_snake:
  assumes "end_of_tick g = Some (Inr g')"
  shows "snake g' = snake g \<and> move_counter g' = move_counter g"
  using end_of_tick_result [OF assms] by (elim exE conjE) (auto split: if_splits)

lemma py_int_nonneg: "0 \<le> q \<Longrightarrow> py_int q = \<lfloor>q\<rfloor>"
  by (simp add: py_int_def)

text \<open>
  C6 as amended. On every tick of an active round that \<open>update\<close> completes, the speed is
  \<open>base_speed * speed_multiplier\<close>, times \<open>3/2\<close> when SpeedBoost is active after the timers
  of the tick have gone down, plus \<open>1/20\<close> of the snake length in Classic only; the cadence is
  the frame rate over that speed with the fraction dropped (Python's \<open>int()\<close>, not a
  rounding to nearest), and at least 1. When the frame counter, once incremented, reaches the
  cadence, \<open>move\<close> is called exactly once and the counter is 0 after the tick; otherwise
  the body stays and the counter has gone up by one. In a well-formed state the speed is at
  least 8, so the division is defined and \<open>int()\<close> is the floor.
\<close>

theorem cadence_truncates:
  assumes "mode g \<in> {''CLASSIC'', ''TIME_ATTACK'', ''SURVIVAL''}"
    and "update g = Some (Inr g')"
  shows "current_speed (update_timers g) =
           of_int (base_speed g) * speed_multiplier g *
             (if SPEED_BOOST \<in> dom (active_powerups (snake (update_timers g))) then 3 / 2 else 1) +
           (if mode g = ''CLASSIC'' then of_nat (length (body (snake g))) * (1 / 20) else 0) \<and>
         frames_per_move (update_timers g) =
           Inr (max 1 (py_int (of_int FPS / current_speed (update_timers g)))) \<and>
         (well_formed g \<longrightarrow>
            8 \<le> current_speed (update_timers g) \<and>
            frames_per_move (update_timers g) =
              Inr (max 1 \<lfloor>of_int FPS / current_speed (update_timers g)\<rfloor>)) \<and>
         (if max 1 (py_int (of_int FPS / current_speed (update_timers g))) \<le> move_counter g + 1
          then move_counter g' = 0 \<and>
               (\<exists>ok s. move (GHOST \<in> dom (active_powerups (snake (update_timers g))))
                          (snake (update_timers g)) = Inr (ok, s) \<and>
                        body (snake g') = body s)
          else move_counter g' = move_counter g + 1 \<and> body (snake g') = body (snake g))"
proof -
  let ?g = "update_timers g"
  have speed: "current_speed ?g =
           of_int (base_speed g) * speed_multiplier g *
             (if SPEED_BOOST \<in> dom (active_powerups (snake ?g)) then 3 / 2 else 1) +
           (if mode g = ''CLASSIC'' then of_nat (length (body (snake g))) * (1 / 20) else 0)"
    by (simp add: current_speed_def Let_def update_timers_def)
  from assms(2,1) obtain fpm where f: "frames_per_move ?g = Inr fpm"
    by (cases rule: update_cases) auto
  then have fpm: "fpm = max 1 (py_int (of_int FPS / current_speed ?g))"
    by (auto simp: frames_per_move_def split: if_splits)
  have wf: "8 \<le> current_speed ?g \<and>
            frames_per_move ?g = Inr (max 1 \<lfloor>of_int FPS / current_speed ?g\<rfloor>)"
    if "well_formed g"
  proof -
    from that have "base_speed g = 8" "speed_multiplier g = 1"
      by (simp_all add: well_formed_def)
    with speed have ge: "8 \<le> current_speed ?g"
      by (auto split: if_splits)
    then have "0 \<le> of_int FPS / current_speed ?g"
      by (simp add: FPS_def)
    with f fpm ge show ?thesis
      by (simp add: py_int_nonneg)
  qed
  have ts: "active_powerups (snake (tick_start g)) = active_powerups (snake ?g)"
    "snake (tick_start g) = snake ?g"
    by (simp_all add: tick_start_def)
  have steps: "if fpm \<le> move_counter g + 1
          then move_counter g' = 0 \<and>
               (\<exists>ok s. move (GHOST \<in> dom (active_powerups (snake ?g))) (snake ?g) = Inr (ok, s) \<and>
                        body (snake g') = body s)
          else move_counter g' = move_counter g + 1 \<and> body (snake g') = body (snake g)"
    using assms(2,1)
  proof (cases rule: update_cases)
    case (idle fpm')
    with f end_of_tick_snake [OF idle(3)] show ?thesis
      by simp
  next
    case (returned fpm')
    from move_tick_snake [OF returned(3), of g'] returned(1,2) f show ?thesis
      by (auto simp: ts)
  next
    case (continued fpm' g2)
    from move_tick_snake [OF continued(3), of g2] end_of_tick_snake [OF continued(4)]
      continued(1,2) f
    show ?thesis
      by (auto simp: ts)
  qed
  from speed f fpm wf steps show ?thesis
    by simp
qed

lemma long_snake_update:
  "update long_snake =
     Some (Inr (long_snake
       \<lparr>snake := reset\<lparr>body :=
           [(26, 15), (25, 15), (24, 15), (23, 15), (22, 15), (21, 15), (20, 15), (19, 15),
            (18, 15), (17, 15), (16, 15), (15, 15), (14, 15), (13, 15), (12, 15), (11, 15),
            (10, 15), (9, 15), (8, 15), (7, 15)]\<rparr>,
        move_counter := 0, powerup_spawn_counter := 1\<rparr>))"
  by (simp add: long_snake_def session_def tick_defs reset_eq)

text \<open>
  The claim as worded fails: in Classic with a snake of twenty cells and no SpeedBoost the
  speed is 9 and the quotient is \<open>60/9\<close>; the source moves every 6 frames, rounding to
  the nearest integer gives 7.
\<close>

theorem cadence_round_counterexample:
  "mode long_snake = ''CLASSIC'' \<and> length (body (snake long_snake)) = 20 \<and>
   current_speed (update_timers long_snake) = 9 \<and>
   frames_per_move (update_timers long_snake) = Inr 6 \<and>
   spec_ticks_per_move (update_timers long_snake) = 7 \<and>
   move_counter long_snake + 1 = 6 \<and>
   update long_snake =
     Some (Inr (long_snake
       \<lparr>snake := reset\<lparr>body :=
           [(26, 15), (25, 15), (24, 15), (23, 15), (22, 15), (21, 15), (20, 15), (19, 15),
            (18, 15), (17, 15), (16, 15), (15, 15), (14, 15), (13, 15), (12, 15), (11, 15),
            (10, 15), (9, 15), (8, 15), (7, 15)]\<rparr>,
        move_counter := 0, powerup_spawn_counter := 1\<rparr>))"
proof -
  have "current_speed (update_timers long_snake) = 9"
    by (simp add: long_snake_def session_def tick_defs reset_eq)
  moreover from this have "frames_per_move (update_timers long_snake) = Inr 6"
    by (simp add: frames_per_move_def py_int_def FPS_def)
  moreover from \<open>current_speed (update_timers long_snake) = 9\<close>
  have "spec_ticks_per_move (update_timers long_snake) = 7"
    by (simp add: spec_ticks_per_move_def round_def FPS_def)
  ultimately show ?thesis
    using long_snake_update by (simp add: long_snake_def session_def)
qed

theorem cadence_truncates_witness:
  "frames_per_move (update_timers long_snake) = Inr 6 \<and>
   (\<exists>g'. update long_snake = Some (Inr g') \<and> move_counter g' = 0 \<and>
      body (snake g') = (26, 15) # butlast (body (snake long_snake))) \<and>
   (\<exists>g'. update (session ''TIME_ATTACK'' draws7) = Some (Inr g') \<and> move_counter g' = 1 \<and>
      body (snake g') = body reset)"
proof -
  have m: "mode long_snake \<in> {''CLASSIC'', ''TIME_ATTACK'', ''SURVIVAL''}"
    "mode (session ''TIME_ATTACK'' draws7) \<in> {''CLASSIC'', ''TIME_ATTACK'', ''SURVIVAL''}"
    by (simp_all add: long_snake_def session_def)
  have sp: "current_speed (update_timers long_snake) = 9"
    "current_speed (update_timers (session ''TIME_ATTACK'' draws7)) = 8"
    by (simp_all add: long_snake_def session_def tick_defs reset_eq)
  obtain g2 where u2: "update (session ''TIME_ATTACK'' draws7) = Some (Inr g2)"
    by (simp add: session_def tick_defs reset_eq)
  from cadence_truncates [OF m(1) long_snake_update] sp(1)
  have "frames_per_move (update_timers long_snake) = Inr 6 \<and>
        move_counter (long_snake
       \<lparr>snake := reset\<lparr>body :=
           [(26, 15), (25, 15), (24, 15), (23, 15), (22, 15), (21, 15), (20, 15), (19, 15),
            (18, 15), (17, 15), (16, 15), (15, 15), (14, 15), (13, 15), (12, 15), (11, 15),
            (10, 15), (9, 15), (8, 15), (7, 15)]\<rparr>,
        move_counter := 0, powerup_spawn_counter := 1\<rparr>) = 0"
    by (simp add: py_int_def FPS_def)
  moreover from cadence_truncates [OF m(2) u2] sp(2)
  have "move_counter g2 = 1 \<and> body (snake g2) = body reset"
    by (simp add: py_int_def FPS_def session_def)
  ultimately show ?thesis
    using long_snake_update u2 by (simp add: long_snake_def session_def)
qed

section \<open>Shield\<close>

lemma absorbed_fields [simp]:
  "body (snake (absorbed g)) = body (snake g)"
  "direction (snake (absorbed g)) = direction (snake g)"
  "grow_pending (snake (absorbed g)) = grow_pending (snake g)"
  "active_powerups (snake (absorbed g)) =
     (active_powerups (snake (update_timers g)))(SHIELD := None)"
  "mode (absorbed g) = mode g" "last_mode (absorbed g) = last_mode g"
  "score (absorbed g) = score g" "move_counter (absorbed g) = 0"
  "base_speed (absorbed g) = base_speed g"
  "speed_multiplier (absorbed g) = speed_multiplier g"
  "powerups (absorbed g) = powerups g" "obstacles (absorbed g) = obstacles g"
  "time_remaining (absorbed g) = time_remaining g"
  "powerup_spawn_counter (absorbed g) = powerup_spawn_counter g"
  "food_pos (absorbed g) = food_pos g" "high_scores (absorbed g) = high_scores g"
  "saved (absorbed g) = saved g" "rand (absorbed g) = rand g"
  "rand_pos (absorbed g) = rand_pos g"
  by (simp_all add: absorbed_def)

lemma obstacle_hit_cong:
  "mode g' = mode g \<Longrightarrow> body (snake g') = body (snake g) \<Longrightarrow> obstacles g' = obstacles g \<Longrightarrow>
     obstacle_hit gh g' = obstacle_hit gh g"
  by (simp add: obstacle_hit_def split: list.splits)

lemma blocked_move:
  assumes "blocked g"
  shows "move (ghost_on g) (snake (tick_start g)) = Inr (False, snake (tick_start g))"
proof -
  have s: "snake (tick_start g) = snake (update_timers g)"
    by (simp add: tick_start_def)
  from assms obtain s' where "move (ghost_on g) (snake (update_timers g)) = Inr (False, s')"
    by (auto simp: blocked_def split: sum.splits)
  with move_blocked_same [OF this] show ?thesis
    by (simp add: s)
qed

lemma absorbed_tick:
  assumes up: "update g = Some (Inr g')" and bl: "blocked g" and sh: "shield_on g"
  shows "resolve_move (ghost_on g) ((tick_start g)\<lparr>move_counter := 0\<rparr>) =
           Inr (Continue (absorbed g)) \<and>
         (\<exists>fl. after_move (ghost_on g) (absorbed g) = Some (Inr fl) \<and>
               (fl = Return g' \<or> (\<exists>g2. fl = Continue g2 \<and> end_of_tick g2 = Some (Inr g'))))"
proof -
  let ?g = "tick_start g"
  have act: "active_powerups (snake ?g) = active_powerups (snake (update_timers g))"
    by simp
  from bl have m: "mode g \<in> {''CLASSIC'', ''TIME_ATTACK'', ''SURVIVAL''}"
    by (simp add: blocked_def move_due_def)
  from bl obtain fpm where due: "frames_per_move (update_timers g) = Inr fpm"
    "fpm \<le> move_counter g + 1"
    by (auto simp: blocked_def move_due_def split: sum.splits)
  have mv: "move (ghost_on g) (snake ?g) = Inr (False, snake ?g)"
    using bl by (rule blocked_move)
  from sh have sh': "SHIELD \<in> dom (active_powerups (snake ?g))"
    by (simp add: shield_on_def)
  from mv sh' have rm: "resolve_move (ghost_on g) (?g\<lparr>move_counter := 0\<rparr>) =
           Inr (Continue (absorbed g))"
    by (simp add: resolve_move_def absorbed_def)
  have am: "after_move (ghost_on g) (absorbed g) = Some (Inr fl)"
    if "move_tick ?g = Some (Inr fl)" for fl
    using that
  proof (cases rule: move_tick_cases)
    case fatal
    with sh' show ?thesis
      by simp
  next
    case (shielded h t)
    then show ?thesis
      by (simp add: absorbed_def ghost_on_def)
  next
    case (moved s h t)
    with mv show ?thesis
      by (simp add: ghost_on_def)
  qed
  from up m have "\<exists>fl. after_move (ghost_on g) (absorbed g) = Some (Inr fl) \<and>
               (fl = Return g' \<or> (\<exists>g2. fl = Continue g2 \<and> end_of_tick g2 = Some (Inr g')))"
  proof (cases rule: update_cases)
    case (idle fpm')
    with due show ?thesis
      by simp
  next
    case (returned fpm')
    from am [OF returned(3)] show ?thesis
      by blast
  next
    case (continued fpm' g2)
    from am [OF continued(3)] continued(4) show ?thesis
      by blast
  qed
  with rm show ?thesis
    by simp
qed

lemma blocked_body: "blocked g \<Longrightarrow> body (snake g) \<noteq> []"
  by (auto simp: blocked_def update_timers_def split: sum.splits dest!: move_body)

lemma absorbed_outcome:
  assumes up: "update g = Some (Inr g')" and bl: "blocked g" and sh: "shield_on g"
    and b: "body (snake g) = h # t"
  shows "body (snake g') = body (snake g) \<and> direction (snake g') = direction (snake g) \<and>
         (obstacle_hit (ghost_on g) g \<longrightarrow> g' = game_over (absorbed g)) \<and>
         (\<not> obstacle_hit (ghost_on g) g \<longrightarrow>
            mode g' = (if mode g = ''TIME_ATTACK'' \<and> time_remaining g - 1 \<le> 0
                       then ''GAME_OVER'' else mode g) \<and>
            grow_pending (snake g') =
              grow_pending (snake g) + (if h = food_pos g then 1 else 0) \<and>
            score g' = score g +
              (if h = food_pos g
               then 10 * (if MULTIPLIER \<in> dom (active_powerups (snake (update_timers g)))
                          then 2 else 1)
               else 0) \<and>
            dom (active_powerups (snake g')) =
              dom (active_powerups (snake (update_timers g))) - {SHIELD} \<union>
              ptype ` {p \<in> set (powerups g). pos p = h})"
proof -
  let ?a = "absorbed g"
  have b': "body (snake ?a) = h # t"
    using b by simp
  have hit: "obstacle_hit (ghost_on g) ?a = obstacle_hit (ghost_on g) g"
    by (rule obstacle_hit_cong) simp_all
  have nosh: "SHIELD \<notin> dom (active_powerups (snake ?a))"
    by simp
  from absorbed_tick [OF up bl sh] obtain fl where
    am: "after_move (ghost_on g) ?a = Some (Inr fl)"
    and fl: "fl = Return g' \<or> (\<exists>g2. fl = Continue g2 \<and> end_of_tick g2 = Some (Inr g'))"
    by blast
  from after_move_result [OF am b'] show ?thesis
  proof (elim disjE exE conjE)
    assume "obstacle_hit (ghost_on g) ?a" "fl = Return (game_over ?a)"
    with fl hit show ?thesis
      by auto
  next
    fix g2
    assume c: "fl = Continue g2"
      and imp: "obstacle_hit (ghost_on g) ?a \<longrightarrow> SHIELD \<in> dom (active_powerups (snake ?a))"
      and f: "body (snake g2) = body (snake ?a)" "direction (snake g2) = direction (snake ?a)"
        "grow_pending (snake g2) = grow_pending (snake ?a) + (if h = food_pos ?a then 1 else 0)"
        "dom (active_powerups (snake g2)) =
           dom (active_powerups (snake ?a)) -
             (if obstacle_hit (ghost_on g) ?a then {SHIELD} else {}) \<union>
           ptype ` {p \<in> set (powerups ?a). pos p = h}"
        "mode g2 = mode ?a" "time_remaining g2 = time_remaining ?a"
        "score g2 = score ?a +
           (if h = food_pos ?a
            then 10 * (if MULTIPLIER \<in> dom (active_powerups (snake ?a)) then 2 else 1)
            else 0)"
    from imp nosh hit have nohit: "\<not> obstacle_hit (ghost_on g) g"
      by simp
    from c fl have eot: "end_of_tick g2 = Some (Inr g')"
      by simp
    from end_of_tick_result [OF eot] obtain gm where
      gm: "g' = (if mode g2 = ''TIME_ATTACK'' \<and> time_remaining g2 - 1 \<le> 0
                 then game_over gm else gm)"
        "snake gm = snake g2" "mode gm = mode g2" "score gm = score g2"
      by blast
    have mult: "(MULTIPLIER \<in> dom (active_powerups (snake ?a))) =
                (MULTIPLIER \<in> dom (active_powerups (snake (update_timers g))))"
      by simp
    from gm f nohit hit show ?thesis
      unfolding mult by (simp split: if_splits)
  qed
qed

text \<open>
  C10. On a tick whose move is blocked while Shield is active, the resolution of the move
  leaves every field as it was when the move was decided, except that Shield is deleted
  (and the frame counter reset): body, head, direction and \<open>grow_pending\<close> are those of
  before the tick. The obstacle, food and power-up checks then run on that state, so at the
  unmoved head: an obstacle that counts under it ends the round there (Shield is gone), and
  otherwise food under it grows the snake and scores, and the power-ups under it are picked
  up. The body and the direction are unchanged over the whole tick.
\<close>

theorem shield_absorbs_without_moving:
  assumes "update g = Some (Inr g')" and "blocked g" and "shield_on g"
  shows "resolve_move (ghost_on g) ((tick_start g)\<lparr>move_counter := 0\<rparr>) =
           Inr (Continue (absorbed g)) \<and>
         absorbed g =
           (tick_start g)\<lparr>move_counter := 0,
             snake := (snake (tick_start g))\<lparr>active_powerups :=
               (active_powerups (snake (tick_start g)))(SHIELD := None)\<rparr>\<rparr> \<and>
         body (snake (absorbed g)) = body (snake g) \<and>
         direction (snake (absorbed g)) = direction (snake g) \<and>
         grow_pending (snake (absorbed g)) = grow_pending (snake g) \<and>
         (\<exists>fl. after_move (ghost_on g) (absorbed g) = Some (Inr fl) \<and>
               (fl = Return g' \<or> (\<exists>g2. fl = Continue g2 \<and> end_of_tick g2 = Some (Inr g')))) \<and>
         body (snake g') = body (snake g) \<and> direction (snake g') = direction (snake g) \<and>
         (obstacle_hit (ghost_on g) g \<longrightarrow> g' = game_over (absorbed g)) \<and>
         (\<not> obstacle_hit (ghost_on g) g \<longrightarrow>
            grow_pending (snake g') =
              grow_pending (snake g) + (if hd (body (snake g)) = food_pos g then 1 else 0) \<and>
            score g' = score g +
              (if hd (body (snake g)) = food_pos g
               then 10 * (if MULTIPLIER \<in> dom (active_powerups (snake (update_timers g)))
                          then 2 else 1)
               else 0) \<and>
            dom (active_powerups (snake g')) =
              dom (active_powerups (snake (update_timers g))) - {SHIELD} \<union>
              ptype ` {p \<in> set (powerups g). pos p = hd (body (snake g))})"
proof -
  from blocked_body [OF assms(2)] obtain h t where b: "body (snake g) = h # t"
    by (cases "body (snake g)") auto
  from absorbed_tick [OF assms] absorbed_outcome [OF assms b] b show ?thesis
    by (simp add: absorbed_def)
qed

lemma shield_at_wall_facts:
  "blocked (shield_at_wall ''CLASSIC'')" "shield_on (shield_at_wall ''CLASSIC'')"
  "\<not> obstacle_hit (ghost_on (shield_at_wall ''CLASSIC'')) (shield_at_wall ''CLASSIC'')"
  "body (snake (shield_at_wall ''CLASSIC'')) = [(39, 15), (38, 15), (37, 15)]"
  by (simp_all add: blocked_def move_due_def shield_on_def ghost_on_def obstacle_hit_def
      shield_at_wall_def snake_at_wall_def session_def tick_defs reset_eq)

theorem shield_absorbs_without_moving_witness:
  "blocked (shield_at_wall ''CLASSIC'') \<and> shield_on (shield_at_wall ''CLASSIC'') \<and>
   (\<exists>g'. update (shield_at_wall ''CLASSIC'') = Some (Inr g') \<and>
      body (snake g') = [(39, 15), (38, 15), (37, 15)] \<and> direction (snake g') = RIGHT \<and>
      grow_pending (snake g') = 0 \<and> dom (active_powerups (snake g')) = {} \<and>
      mode g' = ''CLASSIC'')"
proof -
  let ?g = "shield_at_wall ''CLASSIC''"
  obtain g' where up: "update ?g = Some (Inr g')" and m: "mode g' = ''CLASSIC''"
    by (simp add: shield_at_wall_def snake_at_wall_def session_def tick_defs reset_eq)
  have pre: "grow_pending (snake ?g) = 0" "direction (snake ?g) = RIGHT" "powerups ?g = []"
    "food_pos ?g = (5, 5)"
    "dom (active_powerups (snake (update_timers ?g))) = {SHIELD}"
    by (auto simp: shield_at_wall_def snake_at_wall_def session_def reset_eq update_timers_def
        split: if_splits)
  from shield_absorbs_without_moving [OF up shield_at_wall_facts(1,2)]
    shield_at_wall_facts(3,4) pre
  have "body (snake g') = [(39, 15), (38, 15), (37, 15)] \<and> direction (snake g') = RIGHT \<and>
        grow_pending (snake g') = 0 \<and> dom (active_powerups (snake g')) = {}"
    by simp
  with up m shield_at_wall_facts(1,2) show ?thesis
    by blast
qed

lemma dom_update_timers:
  "dom (active_powerups (snake (update_timers g))) \<subseteq> dom (active_powerups (snake g))"
  by (auto simp: update_timers_def split: option.splits if_splits)

lemma after_move_active:
  assumes am: "after_move gh g = Some (Inr fl)" and b: "body (snake g) = h # t"
    and fl: "fl = Return g' \<or> fl = Continue g'"
  shows "hd (body (snake g')) = h \<and>
         dom (active_powerups (snake g')) \<subseteq>
           dom (active_powerups (snake g)) \<union> ptype ` {p \<in> set (powerups g). pos p = h}"
  using after_move_result [OF am b] fl b by (elim disjE exE conjE) (auto split: if_splits)

lemma update_active:
  assumes up: "update g = Some (Inr g')"
  shows "dom (active_powerups (snake g')) \<subseteq>
           dom (active_powerups (snake g)) \<union>
           ptype ` {p \<in> set (powerups g). pos p = hd (body (snake g'))}"
proof (cases "mode g \<in> {''CLASSIC'', ''TIME_ATTACK'', ''SURVIVAL''}")
  case False
  with up show ?thesis
    by (auto simp: update_inactive)
next
  case True
  let ?g = "tick_start g"
  have ts: "dom (active_powerups (snake ?g)) \<subseteq> dom (active_powerups (snake g))"
    using dom_update_timers [of g] by simp
  have mt: "dom (active_powerups (snake g2)) \<subseteq>
              dom (active_powerups (snake g)) \<union>
              ptype ` {p \<in> set (powerups g). pos p = hd (body (snake g2))}"
    if "move_tick ?g = Some (Inr fl)" "fl = Return g2 \<or> fl = Continue g2" for fl g2
    using that(1)
  proof (cases rule: move_tick_cases)
    case fatal
    with that(2) have "active_powerups (snake g2) = active_powerups (snake ?g)"
      by auto
    with ts show ?thesis
      by auto
  next
    case (shielded h t)
    from after_move_active [OF shielded(4) _ that(2), of h t] shielded(3)
    have "hd (body (snake g2)) = h"
      "dom (active_powerups (snake g2)) \<subseteq>
         dom (active_powerups (snake ?g)) \<union> ptype ` {p \<in> set (powerups g). pos p = h}"
      by auto
    with ts show ?thesis
      by blast
  next
    case (moved s h t)
    from after_move_active [OF moved(3) _ that(2), of h t] moved(2) move_frame [OF moved(1)]
    have "hd (body (snake g2)) = h"
      "dom (active_powerups (snake g2)) \<subseteq>
         dom (active_powerups (snake ?g)) \<union> ptype ` {p \<in> set (powerups g). pos p = h}"
      by auto
    with ts show ?thesis
      by blast
  qed
  from up True show ?thesis
  proof (cases rule: update_cases)
    case (idle fpm)
    from end_of_tick_snake [OF idle(3)] have "snake g' = snake ?g"
      by simp
    with ts show ?thesis
      by auto
  next
    case (returned fpm)
    from mt [OF returned(3)] show ?thesis
      by simp
  next
    case (continued fpm g2)
    from mt [OF continued(3)] end_of_tick_snake [OF continued(4)] show ?thesis
      by simp
  qed
qed

lemma keydown_active:
  assumes "keydown k g = Some (Inr (running, g'))"
  shows "dom (active_powerups (snake g')) \<subseteq> dom (active_powerups (snake g))"
proof -
  have turn: "active_powerups (snake g2) = active_powerups (snake g)"
    if "turn d g = Some (Inr (r, g2))" for d r g2
    using that set_direction_frame [of d "snake g"]
    by (auto simp: turn_def split: sum.splits)
  have new: "active_powerups (snake g2) = Map.empty"
    if "new_game m g = Some (Inr (r, g2))" for m r g2
    using that reset_game_result [of "g\<lparr>mode := m\<rparr>"]
    by (auto simp: new_game_def reset_eq split: option.splits)
  have again: "active_powerups (snake g1) = Map.empty" if "reset_game g = Some g1" for g1
    using reset_game_result [OF that] by (auto simp: reset_eq)
  from assms show ?thesis
    unfolding keydown_def
    by (auto split: if_splits option.splits dest!: turn new again)
qed

lemma handle_events_active:
  assumes "handle_events es g = Some (Inr (running, g'))"
  shows "dom (active_powerups (snake g')) \<subseteq> dom (active_powerups (snake g))"
  using assms
proof (induction es g rule: handle_events.induct)
  case (4 k es g)
  from "4.prems" obtain r g1 where kd: "keydown k g = Some (Inr (r, g1))"
    by (auto split: option.splits sum.splits)
  note sub = keydown_active [OF kd]
  show ?case
  proof (cases r)
    case True
    with "4.prems" kd have "handle_events es g1 = Some (Inr (running, g'))"
      by simp
    with "4.IH" kd True have "dom (active_powerups (snake g')) \<subseteq> dom (active_powerups (snake g1))"
      by (auto simp del: handle_events.simps)
    with sub show ?thesis
      by blast
  next
    case False
    with "4.prems" kd sub show ?thesis
      by simp
  qed
qed simp_all

lemma without_shield_pickup_absent:
  assumes "without_shield_pickup g g'" and "SHIELD \<notin> dom (active_powerups (snake g))"
  shows "SHIELD \<notin> dom (active_powerups (snake g'))"
  using assms
proof (induction rule: without_shield_pickup.induct)
  case (here g)
  then show ?case .
next
  case (keys g g1 es running g2)
  with handle_events_active [OF keys(2)] show ?case
    by blast
next
  case (frame g g1 g2)
  from frame have "SHIELD \<notin> dom (active_powerups (snake g1))"
    by simp
  moreover from frame(3) have
    "SHIELD \<notin> ptype ` {p \<in> set (powerups g1). pos p = hd (body (snake g2))}"
    by auto
  ultimately show ?case
    using update_active [OF frame(2)] by blast
qed

lemma move_due_cases:
  assumes up: "update g = Some (Inr g')" and due: "move_due g"
  obtains fl where "move_tick (tick_start g) = Some (Inr fl)"
    "fl = Return g' \<or> (\<exists>g2. fl = Continue g2 \<and> end_of_tick g2 = Some (Inr g'))"
proof -
  from due have m: "mode g \<in> {''CLASSIC'', ''TIME_ATTACK'', ''SURVIVAL''}"
    by (simp add: move_due_def)
  from due obtain fpm where f: "frames_per_move (update_timers g) = Inr fpm"
    "fpm \<le> move_counter g + 1"
    by (auto simp: move_due_def split: sum.splits)
  from up m show ?thesis
  proof (cases rule: update_cases)
    case (idle fpm')
    with f show ?thesis
      by simp
  next
    case (returned fpm')
    with that show ?thesis
      by blast
  next
    case (continued fpm' g2)
    with that show ?thesis
      by blast
  qed
qed

lemma obstacle_shield_tick:
  assumes up: "update g = Some (Inr g')" and oc: "obstacle_collision g" and sh: "shield_on g"
    and wf: "well_formed g"
  shows "SHIELD \<notin> dom (active_powerups (snake g')) \<and> mode g' = mode g \<and>
         hd (body (snake g')) \<notin> set (obstacles g')"
proof -
  let ?g = "tick_start g"
  let ?gh = "ghost_on g"
  from oc have due: "move_due g"
    by (simp add: obstacle_collision_def)
  from oc obtain s where mv: "move ?gh (snake (update_timers g)) = Inr (True, s)"
    and hit: "obstacle_hit ?gh (g\<lparr>snake := s\<rparr>)"
    by (auto simp: obstacle_collision_def split: sum.splits)
  have sn: "snake ?g = snake (update_timers g)"
    by (simp add: tick_start_def)
  from hit have surv: "mode g = ''SURVIVAL''"
    by (simp add: obstacle_hit_def)
  from up due obtain fl where mt: "move_tick ?g = Some (Inr fl)"
    and fl: "fl = Return g' \<or> (\<exists>g2. fl = Continue g2 \<and> end_of_tick g2 = Some (Inr g'))"
    by (rule move_due_cases)
  from mt show ?thesis
  proof (cases rule: move_tick_cases)
    case fatal
    with mv show ?thesis
      by (simp add: sn ghost_on_def)
  next
    case (shielded h t)
    with mv show ?thesis
      by (simp add: sn ghost_on_def)
  next
    case (moved s' h t)
    with mv have s': "s' = s"
      by (simp add: sn ghost_on_def)
    let ?gx = "?g\<lparr>move_counter := 0, snake := s\<rparr>"
    have gh: "(GHOST \<in> dom (active_powerups (snake ?g))) = ?gh"
      by (simp add: ghost_on_def)
    from moved(3) have am: "after_move ?gh ?gx = Some (Inr fl)"
      unfolding s' gh .
    have b: "body (snake ?gx) = h # t"
      using moved(2) s' by simp
    have "obstacle_hit ?gh ?gx = obstacle_hit ?gh (g\<lparr>snake := s\<rparr>)"
      by (rule obstacle_hit_cong) simp_all
    with hit have hit': "obstacle_hit ?gh ?gx"
      by simp
    with b have hob: "h \<in> set (obstacles g)"
      by (simp add: obstacle_hit_def)
    from move_frame [OF mv] sh have shx: "SHIELD \<in> dom (active_powerups (snake ?gx))"
      by (simp add: shield_on_def)
    from wf hob have nop: "{p \<in> set (powerups g). pos p = h} = {}"
      by (auto simp: well_formed_def)
    from after_move_result [OF am b] show ?thesis
    proof (elim disjE exE conjE)
      assume "SHIELD \<notin> dom (active_powerups (snake ?gx))"
      with shx show ?thesis
        by simp
    next
      fix g2
      assume c: "fl = Continue g2"
        and f: "body (snake g2) = body (snake ?gx)"
          "dom (active_powerups (snake g2)) =
             dom (active_powerups (snake ?gx)) -
               (if obstacle_hit ?gh ?gx then {SHIELD} else {}) \<union>
             ptype ` {p \<in> set (powerups ?gx). pos p = h}"
          "mode g2 = mode ?gx"
          "obstacles g2 =
             (if obstacle_hit ?gh ?gx then filter (\<lambda>c. c \<noteq> h) (obstacles ?gx)
              else obstacles ?gx)"
      from c fl have eot: "end_of_tick g2 = Some (Inr g')"
        by simp
      from end_of_tick_result [OF eot] obtain gm where
        gm: "g' = (if mode g2 = ''TIME_ATTACK'' \<and> time_remaining g2 - 1 \<le> 0
                   then game_over gm else gm)"
          "snake gm = snake g2" "mode gm = mode g2"
          "obstacles gm = obstacles g2 \<or>
            (mode g2 = ''SURVIVAL'' \<and>
             (\<exists>c. obstacles gm = obstacles g2 @ [c] \<and> c \<notin> set (body (snake g2)) \<and>
                   c \<noteq> food_pos g2 \<and> c \<notin> set (map pos (powerups gm)) \<and>
                   c \<notin> set (obstacles g2)))"
        by blast
      from f(3) surv gm(1) have g': "g' = gm"
        by simp
      from f(2) hit' nop have "SHIELD \<notin> dom (active_powerups (snake g2))"
        by simp
      moreover from f(1) b have hd: "hd (body (snake g2)) = h" "h \<in> set (body (snake g2))"
        by simp_all
      moreover from f(4) hit' have "h \<notin> set (obstacles g2)"
        by simp
      with gm(4) hd(2) have "h \<notin> set (obstacles gm)"
        by auto
      ultimately show ?thesis
        using gm(2,3) f(3) unfolding g' by simp
    qed
  qed
qed

lemma unshielded_collision_tick:
  assumes up: "update g = Some (Inr g')" and col: "blocked g \<or> obstacle_collision g"
    and nosh: "\<not> shield_on g"
  shows "mode g' = ''GAME_OVER''"
proof -
  let ?g = "tick_start g"
  let ?gh = "ghost_on g"
  have sn: "snake ?g = snake (update_timers g)"
    by (simp add: tick_start_def)
  have gh: "(GHOST \<in> dom (active_powerups (snake ?g))) = ?gh"
    by (simp add: ghost_on_def)
  from nosh have nosh': "SHIELD \<notin> dom (active_powerups (snake ?g))"
    by (simp add: shield_on_def)
  from col have due: "move_due g"
    by (auto simp: blocked_def obstacle_collision_def)
  from up due obtain fl where mt: "move_tick ?g = Some (Inr fl)"
    and fl: "fl = Return g' \<or> (\<exists>g2. fl = Continue g2 \<and> end_of_tick g2 = Some (Inr g'))"
    by (rule move_due_cases)
  from mt show ?thesis
  proof (cases rule: move_tick_cases)
    case fatal
    with fl show ?thesis
      by auto
  next
    case (shielded h t)
    with nosh' show ?thesis
      by simp
  next
    case (moved s h t)
    from moved(1) have mv: "move ?gh (snake (update_timers g)) = Inr (True, s)"
      by (simp add: sn ghost_on_def)
    with col have hit: "obstacle_hit ?gh (g\<lparr>snake := s\<rparr>)"
      by (auto simp: blocked_def obstacle_collision_def)
    let ?gx = "?g\<lparr>move_counter := 0, snake := s\<rparr>"
    from moved(3) have am: "after_move ?gh ?gx = Some (Inr fl)"
      unfolding gh .
    have b: "body (snake ?gx) = h # t"
      using moved(2) by simp
    have "obstacle_hit ?gh ?gx = obstacle_hit ?gh (g\<lparr>snake := s\<rparr>)"
      by (rule obstacle_hit_cong) simp_all
    with hit have hit': "obstacle_hit ?gh ?gx"
      by simp
    from move_frame [OF mv] nosh have "SHIELD \<notin> dom (active_powerups (snake ?gx))"
      by (simp add: shield_on_def)
    with after_move_result [OF am b] hit' have "fl = Return (game_over ?gx)"
      by auto
    with fl show ?thesis
      by auto
  qed
qed

text \<open>
  C5 as amended. In a well-formed state (every reachable state is one), on a tick that
  \<open>update\<close> completes:
  a blocked move with Shield active deletes Shield, which is absent after the tick, and the
  collision itself does not end the round; the tick still ends in GameOver exactly when, in
  Survival without Ghost, the unmoved head lies on an obstacle (Shield being spent), or
  when in Time Attack the countdown runs out on that tick, and otherwise the mode stays;
  an obstacle collision with Shield active deletes Shield and the obstacle, and the mode
  stays;
  a collision without Shield ends in GameOver;
  and once Shield is absent after a tick, every later collision in a stretch of the
  session without a Shield pickup ends in GameOver.
\<close>

theorem shield_single_use:
  assumes "well_formed g" and "update g = Some (Inr g')"
  shows "(blocked g \<and> shield_on g \<longrightarrow>
            SHIELD \<notin> dom (active_powerups (snake g')) \<and>
            (mode g' = ''GAME_OVER'' \<longleftrightarrow>
               obstacle_hit (ghost_on g) g \<or>
               (mode g = ''TIME_ATTACK'' \<and> time_remaining g \<le> 1)) \<and>
            (mode g' \<noteq> ''GAME_OVER'' \<longrightarrow> mode g' = mode g)) \<and>
         (obstacle_collision g \<and> shield_on g \<longrightarrow>
            SHIELD \<notin> dom (active_powerups (snake g')) \<and> mode g' = mode g \<and>
            hd (body (snake g')) \<notin> set (obstacles g')) \<and>
         ((blocked g \<or> obstacle_collision g) \<and> \<not> shield_on g \<longrightarrow> mode g' = ''GAME_OVER'') \<and>
         (SHIELD \<notin> dom (active_powerups (snake g)) \<longrightarrow> \<not> shield_on g) \<and>
         (\<forall>g2 g3. SHIELD \<notin> dom (active_powerups (snake g')) \<and> without_shield_pickup g' g2 \<and>
                  (blocked g2 \<or> obstacle_collision g2) \<and> update g2 = Some (Inr g3) \<longrightarrow>
                  mode g3 = ''GAME_OVER'')"
proof (intro conjI impI allI)
  assume a: "blocked g \<and> shield_on g"
  then have bl: "blocked g" and sh: "shield_on g"
    by simp_all
  from blocked_body [OF bl] obtain h t where b: "body (snake g) = h # t"
    by (cases "body (snake g)") auto
  from bl have m: "mode g \<in> {''CLASSIC'', ''TIME_ATTACK'', ''SURVIVAL''}"
    by (simp add: blocked_def move_due_def)
  from assms(1) b have nop: "{p \<in> set (powerups g). pos p = h} = {}"
    by (auto simp: well_formed_def)
  note out = absorbed_outcome [OF assms(2) bl sh b]
  show "SHIELD \<notin> dom (active_powerups (snake g'))"
  proof (cases "obstacle_hit (ghost_on g) g")
    case True
    with out have "g' = game_over (absorbed g)"
      by simp
    then show ?thesis
      by simp
  next
    case False
    with out nop show ?thesis
      by simp
  qed
  show "mode g' = ''GAME_OVER'' \<longleftrightarrow>
          obstacle_hit (ghost_on g) g \<or> (mode g = ''TIME_ATTACK'' \<and> time_remaining g \<le> 1)"
  proof (cases "obstacle_hit (ghost_on g) g")
    case True
    with out have "g' = game_over (absorbed g)"
      by simp
    with True show ?thesis
      by simp
  next
    case False
    with out m show ?thesis
      by auto
  qed
  show "mode g' = mode g" if "mode g' \<noteq> ''GAME_OVER''"
  proof (cases "obstacle_hit (ghost_on g) g")
    case True
    with out have "g' = game_over (absorbed g)"
      by simp
    with that show ?thesis
      by simp
  next
    case False
    with out that show ?thesis
      by (auto split: if_splits)
  qed
next
  assume a: "obstacle_collision g \<and> shield_on g"
  with obstacle_shield_tick [OF assms(2) _ _ assms(1)]
  show "SHIELD \<notin> dom (active_powerups (snake g'))" "mode g' = mode g"
    "hd (body (snake g')) \<notin> set (obstacles g')"
    by simp_all
next
  assume "(blocked g \<or> obstacle_collision g) \<and> \<not> shield_on g"
  with unshielded_collision_tick [OF assms(2)] show "mode g' = ''GAME_OVER''"
    by simp
next
  assume "SHIELD \<notin> dom (active_powerups (snake g))"
  with dom_update_timers [of g] show "\<not> shield_on g"
    by (auto simp: shield_on_def)
next
  fix g2 g3
  assume a: "SHIELD \<notin> dom (active_powerups (snake g')) \<and> without_shield_pickup g' g2 \<and>
             (blocked g2 \<or> obstacle_collision g2) \<and> update g2 = Some (Inr g3)"
  then have run: "without_shield_pickup g' g2"
    and none: "SHIELD \<notin> dom (active_powerups (snake g'))"
    and col: "blocked g2 \<or> obstacle_collision g2" and up2: "update g2 = Some (Inr g3)"
    by simp_all
  from run none have "SHIELD \<notin> dom (active_powerups (snake g2))"
    by (rule without_shield_pickup_absent)
  with dom_update_timers [of g2] have "\<not> shield_on g2"
    unfolding shield_on_def by blast
  with up2 col show "mode g3 = ''GAME_OVER''"
    by (rule unshielded_collision_tick)
qed

lemmas collision_defs = blocked_def obstacle_collision_def move_due_def shield_on_def
  ghost_on_def obstacle_hit_def well_formed_def

subsection \<open>Two rounds that end on a shielded tick\<close>

lemma ticks_numeral:
  "ticks (numeral k) g =
     (case update g of Some (Inr g') \<Rightarrow> ticks (pred_numeral k) g' | r \<Rightarrow> r)"
  by (simp add: numeral_eq_Suc)

lemma case_option_if:
  "case_option n s (if b then x else y) = (if b then case_option n s x else case_option n s y)"
  by simp

lemma reachable_ticks:
  assumes "reachable g" "ticks n g = Some (Inr g')"
  shows "reachable g'"
  using assms
proof (induction n arbitrary: g)
  case 0
  then show ?case by simp
next
  case (Suc n)
  from Suc.prems(2) obtain g1 where u: "update g = Some (Inr g1)"
    and t: "ticks n g1 = Some (Inr g')"
    by (auto split: option.splits sum.splits)
  from Suc.prems(1) u have "reachable g1"
    by (rule reachable.tick)
  then show ?case
    using t by (rule Suc.IH)
qed

lemma reachable_play:
  assumes "reachable g" "play ss g = Some (Inr g')"
  shows "reachable g'"
  using assms
proof (induction ss g rule: play.induct)
  case (1 g)
  then show ?case by simp
next
  case (2 n ss g)
  from "2.prems"(2) obtain g1 where t: "ticks n g = Some (Inr g1)"
    and p: "play ss g1 = Some (Inr g')"
    by (auto split: option.splits sum.splits)
  from "2.prems"(1) t have "reachable g1"
    by (rule reachable_ticks)
  with t p show ?case
    using "2.IH" by blast
next
  case (3 k ss g)
  from "3.prems"(2) obtain running g1 where
    h: "handle_events [KEYDOWN k] g = Some (Inr (running, g1))"
    and p: "play ss g1 = Some (Inr g')"
    by (auto split: option.splits sum.splits prod.splits)
  from "3.prems"(1) h have "reachable g1"
    by (rule reachable.events)
  with h p show ?case
    using "3.IH" by blast
qed

lemma reachable_rounds:
  assumes "reachable g" "rounds n ss g = Some (Inr g')"
  shows "reachable g'"
  using assms
proof (induction n arbitrary: g)
  case 0
  then show ?case by simp
next
  case (Suc n)
  from Suc.prems(2) obtain g1 where p: "play ss g = Some (Inr g1)"
    and r: "rounds n ss g1 = Some (Inr g')"
    by (auto split: option.splits sum.splits)
  from Suc.prems(1) p have "reachable g1"
    by (rule reachable_play)
  then show ?case
    using r by (rule Suc.IH)
qed

lemmas play_defs = ticks_numeral case_option_if lap_def box_def keydown_def new_game_def turn_def set_direction_def
  reset_game_def tick_defs spawn_first reset_eq ta_draws_def sv_draws_def load_high_scores_def
  shield_33_def boost_34_def ghost_37_def ta_menu_def ta_start_def ta_circling_def
  sv_menu_def sv_start_def sv_grown_def sv_circling_def

subsection \<open>The Time Attack round\<close>

lemma ta_init: "Game_init ta_draws None = Some ta_menu"
  by (simp add: Game_init_def play_defs)

lemma ta_key: "handle_events [KEYDOWN K_2] ta_menu = Some (Inr (True, ta_start))"
  by (simp add: play_defs)

lemma ta_first_lap: "play lap ta_start = Some (Inr (ta_circling 28 3572 []))"
  by (simp add: play_defs)

lemma ta_lap:
  assumes "c + 28 < 600" "28 < t" "ps = [] \<or> ps = [shield_33] \<or> ps = [shield_33, boost_34]"
  shows "play lap (ta_circling c t ps) = Some (Inr (ta_circling (c + 28) (t - 28) ps))"
  using assms by (elim disjE) (simp_all add: play_defs)

lemma ta_laps:
  assumes "c + 28 * int n < 600" "28 * int n < t"
    "ps = [] \<or> ps = [shield_33] \<or> ps = [shield_33, boost_34]"
  shows "rounds n lap (ta_circling c t ps) =
           Some (Inr (ta_circling (c + 28 * int n) (t - 28 * int n) ps))"
  using assms
proof (induction n arbitrary: c t)
  case 0
  then show ?case by simp
next
  case (Suc n)
  have "play lap (ta_circling c t ps) = Some (Inr (ta_circling (c + 28) (t - 28) ps))"
    using Suc.prems by (intro ta_lap) simp_all
  moreover have "rounds n lap (ta_circling (c + 28) (t - 28) ps) =
      Some (Inr (ta_circling (c + 28 + 28 * int n) (t - 28 - 28 * int n) ps))"
    using Suc.prems by (intro Suc.IH) simp_all
  ultimately show ?case
    by (simp add: algebra_simps)
qed

lemma ta_lap_600: "play lap (ta_circling 588 3012 []) = Some (Inr (ta_circling 16 2984 [shield_33]))"
  by (simp add: play_defs)

lemma ta_lap_1200:
  "play lap (ta_circling 576 2424 [shield_33]) =
     Some (Inr (ta_circling 4 2396 [shield_33, boost_34]))"
  by (simp add: play_defs)

lemma ta_lap_1800:
  "play lap (ta_circling 592 1808 [shield_33, boost_34]) =
     Some (Inr (ta_circling 20 1780 [shield_33, boost_34]))"
  by (simp add: play_defs)

lemma ta_lap_2400:
  "play lap (ta_circling 580 1220 [shield_33, boost_34]) =
     Some (Inr (ta_circling 8 1192 [shield_33, boost_34]))"
  by (simp add: play_defs)

lemma ta_lap_3000:
  "play lap (ta_circling 596 604 [shield_33, boost_34]) =
     Some (Inr (ta_circling 24 576 [shield_33, boost_34]))"
  by (simp add: play_defs)

lemma ta_approach:
  "ticks 127 (ta_circling 472 128 [shield_33, boost_34]) = Some (Inr time_attack_last)"
  by (simp add: time_attack_last_def snake_at_wall_def play_defs) (auto simp: fun_eq_iff)

lemma reachable_time_attack_last: "reachable time_attack_last"
proof -
  note laps = reachable_rounds [OF _ ta_laps] and lap = reachable_play
  have "reachable ta_start"
    using reachable.start [OF ta_init] ta_key by (rule reachable.events)
  then have "reachable (ta_circling 28 3572 [])"
    using ta_first_lap by (rule lap)
  then have "reachable (ta_circling (28 + 28 * int 20) (3572 - 28 * int 20) [])"
    by (rule laps) simp_all
  then have "reachable (ta_circling 16 2984 [shield_33])"
    using ta_lap_600 by (simp add: lap)
  then have "reachable (ta_circling (16 + 28 * int 20) (2984 - 28 * int 20) [shield_33])"
    by (rule laps) simp_all
  then have "reachable (ta_circling 4 2396 [shield_33, boost_34])"
    using ta_lap_1200 by (simp add: lap)
  then have "reachable (ta_circling (4 + 28 * int 21) (2396 - 28 * int 21) [shield_33, boost_34])"
    by (rule laps) simp_all
  then have "reachable (ta_circling 20 1780 [shield_33, boost_34])"
    using ta_lap_1800 by (simp add: lap)
  then have "reachable (ta_circling (20 + 28 * int 20) (1780 - 28 * int 20) [shield_33, boost_34])"
    by (rule laps) simp_all
  then have "reachable (ta_circling 8 1192 [shield_33, boost_34])"
    using ta_lap_2400 by (simp add: lap)
  then have "reachable (ta_circling (8 + 28 * int 21) (1192 - 28 * int 21) [shield_33, boost_34])"
    by (rule laps) simp_all
  then have "reachable (ta_circling 24 576 [shield_33, boost_34])"
    using ta_lap_3000 by (simp add: lap)
  then have "reachable (ta_circling (24 + 28 * int 16) (576 - 28 * int 16) [shield_33, boost_34])"
    by (rule laps) simp_all
  then have "reachable (ta_circling 472 128 [shield_33, boost_34])"
    by simp
  then show ?thesis
    using ta_approach by (rule reachable_ticks)
qed

subsection \<open>The Survival round\<close>

lemma sv_init: "Game_init sv_draws None = Some sv_menu"
  by (simp add: Game_init_def play_defs)

lemma sv_key: "handle_events [KEYDOWN K_3] sv_menu = Some (Inr (True, sv_start))"
  by (simp add: play_defs)

lemma sv_grow: "ticks 21 sv_start = Some (Inr sv_grown)"
  by (simp add: play_defs)

lemma sv_first_box: "play box sv_grown = Some (Inr (sv_circling 63 []))"
  by (simp add: play_defs)

lemma sv_box:
  assumes "c + 42 < 600" "ps = [] \<or> ps = [ghost_37]"
  shows "play box (sv_circling c ps) = Some (Inr (sv_circling (c + 42) ps))"
  using assms by (elim disjE) (simp_all add: play_defs)

lemma sv_boxes:
  assumes "c + 42 * int n < 600" "ps = [] \<or> ps = [ghost_37]"
  shows "rounds n box (sv_circling c ps) = Some (Inr (sv_circling (c + 42 * int n) ps))"
  using assms
proof (induction n arbitrary: c)
  case 0
  then show ?case by simp
next
  case (Suc n)
  have "play box (sv_circling c ps) = Some (Inr (sv_circling (c + 42) ps))"
    using Suc.prems by (intro sv_box) simp_all
  moreover have "rounds n box (sv_circling (c + 42) ps) =
      Some (Inr (sv_circling (c + 42 + 42 * int n) ps))"
    using Suc.prems by (intro Suc.IH) simp_all
  ultimately show ?case
    by (simp add: algebra_simps)
qed

lemma sv_box_600: "play box (sv_circling 567 []) = Some (Inr (sv_circling 9 [ghost_37]))"
  by (simp add: play_defs)

lemma sv_to_ghost: "ticks 98 (sv_circling 219 [ghost_37]) = Some (Inr sv_ghost)"
  by (simp add: sv_ghost_def play_defs)

lemma sv_around: "ticks 300 sv_ghost = Some (Inr survival_last)"
  by (simp add: sv_ghost_def survival_last_def play_defs) (auto simp: fun_eq_iff)

lemma reachable_survival_last: "reachable survival_last"
proof -
  have "reachable sv_start"
    using reachable.start [OF sv_init] sv_key by (rule reachable.events)
  then have "reachable sv_grown"
    using sv_grow by (rule reachable_ticks)
  then have "reachable (sv_circling 63 [])"
    using sv_first_box by (rule reachable_play)
  then have "reachable (sv_circling (63 + 42 * int 12) [])"
    by (rule reachable_rounds [OF _ sv_boxes]) simp_all
  then have "reachable (sv_circling 9 [ghost_37])"
    using sv_box_600 by (simp add: reachable_play)
  then have "reachable (sv_circling (9 + 42 * int 5) [ghost_37])"
    by (rule reachable_rounds [OF _ sv_boxes]) simp_all
  then have "reachable (sv_circling 219 [ghost_37])"
    by simp
  then have "reachable sv_ghost"
    using sv_to_ghost by (rule reachable_ticks)
  then show ?thesis
    using sv_around by (rule reachable_ticks)
qed

text \<open>
  The claim as worded fails in states that a session reaches: Shield is active and absorbs a
  blocked move, and the same tick ends in GameOver, in Time Attack because the countdown
  runs out, in Survival because the unmoved head lies on an obstacle.
\<close>

theorem shield_tick_game_over_counterexample:
  "reachable time_attack_last \<and> well_formed time_attack_last \<and> blocked time_attack_last \<and>
   shield_on time_attack_last \<and>
   map_option (map_sum id mode) (update time_attack_last) = Some (Inr ''GAME_OVER'') \<and>
   reachable survival_last \<and> well_formed survival_last \<and> blocked survival_last \<and>
   shield_on survival_last \<and>
   map_option (map_sum id mode) (update survival_last) = Some (Inr ''GAME_OVER'')"
proof -
  have "well_formed time_attack_last" "blocked time_attack_last" "shield_on time_attack_last"
    by (simp_all add: collision_defs time_attack_last_def snake_at_wall_def play_defs)
  moreover have "map_option (map_sum id mode) (update time_attack_last) = Some (Inr ''GAME_OVER'')"
    by (simp add: time_attack_last_def snake_at_wall_def play_defs)
  moreover have "well_formed survival_last" "blocked survival_last" "shield_on survival_last"
    by (simp_all add: collision_defs survival_last_def play_defs)
  moreover have "map_option (map_sum id mode) (update survival_last) = Some (Inr ''GAME_OVER'')"
    by (simp add: survival_last_def play_defs)
  ultimately show ?thesis
    using reachable_time_attack_last reachable_survival_last by simp
qed

theorem shield_single_use_witness:
  "well_formed (shield_at_wall ''CLASSIC'') \<and> blocked (shield_at_wall ''CLASSIC'') \<and>
   shield_on (shield_at_wall ''CLASSIC'') \<and>
   (\<exists>g'. update (shield_at_wall ''CLASSIC'') = Some (Inr g') \<and>
      SHIELD \<notin> dom (active_powerups (snake g')) \<and> mode g' = ''CLASSIC'') \<and>
   well_formed (survival_row 38) \<and> obstacle_collision (survival_row 38) \<and>
   shield_on (survival_row 38) \<and>
   (\<exists>g'. update (survival_row 38) = Some (Inr g') \<and>
      SHIELD \<notin> dom (active_powerups (snake g')) \<and> mode g' = ''SURVIVAL'' \<and>
      hd (body (snake g')) = (39, 15) \<and> (39, 15) \<notin> set (obstacles g')) \<and>
   well_formed bare_at_wall \<and>
   (\<exists>g' g3. update bare_at_wall = Some (Inr g') \<and> without_shield_pickup g' g' \<and>
      blocked g' \<and> update g' = Some (Inr g3) \<and> mode g3 = ''GAME_OVER'')"
proof -
  let ?c = "shield_at_wall ''CLASSIC''"
  have c: "well_formed ?c" "blocked ?c" "shield_on ?c" "\<not> obstacle_hit (ghost_on ?c) ?c"
    "mode ?c = ''CLASSIC''"
    by (simp_all add: collision_defs shield_at_wall_def snake_at_wall_def session_def tick_defs
        reset_eq)
  obtain g1 where u1: "update ?c = Some (Inr g1)"
    by (simp add: shield_at_wall_def snake_at_wall_def session_def tick_defs reset_eq)
  note t1 = shield_single_use [OF c(1) u1, THEN conjunct1, THEN mp, OF conjI [OF c(2) c(3)]]
  from t1 have n1: "SHIELD \<notin> dom (active_powerups (snake g1))"
    by (rule conjunct1)
  from t1 c(4,5) have m1: "mode g1 = ''CLASSIC''"
    by simp
  have s: "well_formed (survival_row 38)" "obstacle_collision (survival_row 38)"
    "shield_on (survival_row 38)" "mode (survival_row 38) = ''SURVIVAL''"
    by (simp_all add: collision_defs survival_row_def session_def tick_defs)
  obtain g2 where u2: "update (survival_row 38) = Some (Inr g2)"
    and h2: "hd (body (snake g2)) = (39, 15)"
    by (simp add: survival_row_def session_def tick_defs spawn_first draws7_def)
  note t2 = shield_single_use [OF s(1) u2, THEN conjunct2, THEN conjunct1, THEN mp,
      OF conjI [OF s(2) s(3)]]
  from t2 h2 s(4) have r2: "SHIELD \<notin> dom (active_powerups (snake g2))" "mode g2 = ''SURVIVAL''"
    "(39, 15) \<notin> set (obstacles g2)"
    by simp_all
  let ?b = "bare_at_wall\<lparr>move_counter := 6, powerup_spawn_counter := 1\<rparr>"
  have b: "well_formed bare_at_wall" "SHIELD \<notin> dom (active_powerups (snake ?b))" "blocked ?b"
    by (simp_all add: collision_defs bare_at_wall_def snake_at_wall_def session_def tick_defs
        reset_eq)
  have u3: "update bare_at_wall = Some (Inr ?b)"
    by (simp add: bare_at_wall_def snake_at_wall_def session_def tick_defs reset_eq)
  obtain g3 where u4: "update ?b = Some (Inr g3)"
    by (simp add: bare_at_wall_def snake_at_wall_def session_def tick_defs reset_eq)
  have run: "without_shield_pickup ?b ?b"
    by (rule without_shield_pickup.here)
  note t3 = shield_single_use [OF b(1) u3, THEN conjunct2, THEN conjunct2, THEN conjunct2,
      THEN conjunct2, THEN spec, THEN spec, THEN mp, of ?b g3]
  have r3: "mode g3 = ''GAME_OVER''"
    by (rule t3) (intro conjI disjI1 b(2) run b(3) u4)
  have e1: "\<exists>g'. update ?c = Some (Inr g') \<and>
      SHIELD \<notin> dom (active_powerups (snake g')) \<and> mode g' = ''CLASSIC''"
    by (intro exI [of _ g1] conjI u1 n1 m1)
  have e2: "\<exists>g'. update (survival_row 38) = Some (Inr g') \<and>
      SHIELD \<notin> dom (active_powerups (snake g')) \<and> mode g' = ''SURVIVAL'' \<and>
      hd (body (snake g')) = (39, 15) \<and> (39, 15) \<notin> set (obstacles g')"
    by (intro exI [of _ g2] conjI u2 r2 h2)
  have e3: "\<exists>g' g3. update bare_at_wall = Some (Inr g') \<and> without_shield_pickup g' g' \<and>
      blocked g' \<and> update g' = Some (Inr g3) \<and> mode g3 = ''GAME_OVER''"
    by (intro exI [of _ ?b] exI [of _ g3] conjI u3 run b(3) u4 r3)
  show ?thesis
    by (intro conjI c(1) c(2) c(3) e1 s(1) s(2) s(3) e2 b(1) e3)
qed

end
